theory Spec2Isabelle
  imports Complex_Main "HOL-Library.Multiset" "HOL-Library.Char_ord" "HOL-Library.List_Lexorder"
begin

section \<open>Python strings\<close>

text \<open>
  A Python \<open>str\<close> is modelled as a \<open>string\<close>, one \<open>char\<close> per code point, for text
  whose code points lie below 256. \<open>isspace\<close> lists the code points below 256 for which
  Python's \<open>str.isspace\<close> holds; \<open>str.split()\<close> and \<open>str.strip()\<close> use the same set.
\<close>

definition isspace :: "char \<Rightarrow> bool" where
  "isspace c = (of_char c \<in> {9, 10, 11, 12, 13, 28, 29, 30, 31, 32, 133, 160 :: nat})"

text \<open>\<open>text.split()\<close>: the maximal runs of non-whitespace characters, left to right.\<close>

function split_ws :: "string \<Rightarrow> string list" where
  "split_ws [] = []"
| "split_ws (c # cs) =
     (if isspace c then split_ws cs
      else takeWhile (\<lambda>x. \<not> isspace x) (c # cs) # split_ws (dropWhile (\<lambda>x. \<not> isspace x) cs))"
  by pat_completeness auto
termination
  by (relation "measure length") (auto simp: less_Suc_eq_le length_dropWhile_le)

text \<open>\<open>text.strip()\<close>: leading and trailing whitespace removed.\<close>

definition strip :: "string \<Rightarrow> string" where
  "strip s = rev (dropWhile isspace (rev (dropWhile isspace s)))"

text \<open>\<open>" ".join(words)\<close>.\<close>

fun join_sp :: "string list \<Rightarrow> string" where
  "join_sp [] = []"
| "join_sp [w] = w"
| "join_sp (w # v # vs) = w @ CHR '' '' # join_sp (v # vs)"

text \<open>
  \<open>xs[start:stop]\<close> for Python integers: a negative bound counts from the end, and both
  bounds are clamped to the list.
\<close>

definition py_slice :: "'a list \<Rightarrow> int \<Rightarrow> int \<Rightarrow> 'a list" where
  "py_slice xs start stop =
     (let n = int (length xs);
          s = (if start < 0 then max (start + n) 0 else min start n);
          e = (if stop < 0 then max (stop + n) 0 else min stop n)
      in take (nat (e - s)) (drop (nat s) xs))"

section \<open>rag.py: split_into_chunks\<close>

text \<open>
  The \<open>while start < len(words)\<close> loop. It need not terminate, so it is a partial function:
  \<open>None\<close> is a loop that never returns.
\<close>

partial_function (option) chunk_loop ::
  "string list \<Rightarrow> int \<Rightarrow> int \<Rightarrow> int \<Rightarrow> string list \<Rightarrow> string list option" where
  "chunk_loop words max_words overlap start chunks =
     (if start < int (length words) then
        (let stop = start + max_words;
             chunk_words = py_slice words start stop
         in chunk_loop words max_words overlap (stop - overlap)
              (chunks @ [strip (join_sp chunk_words)]))
      else Some chunks)"

declare chunk_loop.simps [code]

definition split_into_chunks :: "string \<Rightarrow> int \<Rightarrow> int \<Rightarrow> string list option" where
  "split_into_chunks text max_words overlap =
     (let words = split_ws text in
      if words = [] then Some []
      else if int (length words) \<le> max_words then Some [strip text]
      else chunk_loop words max_words overlap 0 [])"

section \<open>rag.py: load_corpus\<close>

text \<open>
  Every exception the modelled code can raise. The comments give the Python class and
  the place that raises it.
\<close>

datatype error =
    CorpusPathNotADirectory  \<comment> \<open>\<open>ValueError\<close>, load_corpus: the path is not a directory\<close>
  | NoTxtFiles               \<comment> \<open>\<open>FileNotFoundError\<close>, load_corpus: no *.txt file\<close>
  | ReadError                \<comment> \<open>\<open>OSError\<close> or \<open>UnicodeDecodeError\<close> of open/read\<close>
  | EmptyTextList            \<comment> \<open>\<open>ValueError\<close>, embed_texts: empty list of texts\<close>
  | RangeStepZero            \<comment> \<open>\<open>ValueError\<close> of \<open>range(0, n, 0)\<close>\<close>
  | ApiError                 \<comment> \<open>any exception of the OpenAI client\<close>
  | IndexError               \<comment> \<open>list index out of range\<close>
  | AxisError                \<comment> \<open>numpy: \<open>axis=1\<close> on a one-dimensional array\<close>
  | ShapeMismatch            \<comment> \<open>\<open>ValueError\<close> of numpy's matrix product\<close>
  | JSONDecodeError          \<comment> \<open>any exception of \<open>json.loads\<close>\<close>
  | AttributeError           \<comment> \<open>\<open>.get\<close> on a value that is not a dict\<close>

text \<open>
  The state of the file system at the corpus path. A directory is the list of its entries
  in the order the operating system lists them, which is arbitrary (no entry when the
  directory cannot be listed). \<open>Readable content\<close>
  is a file that \<open>open(...).read()\<close> decodes to \<open>content\<close>; \<open>Unreadable\<close> is an entry
  on which open or read raises (no permission, a directory, bytes that are not UTF-8).
\<close>

datatype corpus_file = Readable string | Unreadable

datatype path_state = NotADirectory | Directory "(string \<times> corpus_file) list"

definition ends_with :: "string \<Rightarrow> string \<Rightarrow> bool" where
  "ends_with s sfx = (length sfx \<le> length s \<and> drop (length s - length sfx) s = sfx)"

text \<open>
  \<open>glob(os.path.join(path, "*.txt"))\<close> on a POSIX system: the names that end in \<open>.txt\<close>;
  glob never matches a name starting with a dot against a pattern starting with \<open>*\<close>.
\<close>

definition is_txt :: "string \<Rightarrow> bool" where
  "is_txt name = (ends_with name ''.txt'' \<and> hd name \<noteq> CHR ''.'')"

text \<open>\<open>content.split("\n\n")\<close>: the pieces between occurrences of two line feeds.\<close>

fun split_blank :: "string \<Rightarrow> string \<Rightarrow> string list" where
  "split_blank cur [] = [cur]"
| "split_blank cur [c] = [cur @ [c]]"
| "split_blank cur (a # b # rest) =
     (if a = CHR 0x0A \<and> b = CHR 0x0A then cur # split_blank [] rest
      else split_blank (cur @ [a]) (b # rest))"

definition paragraphs :: "string \<Rightarrow> string list" where
  "paragraphs content = map strip (filter (\<lambda>p. strip p \<noteq> []) (split_blank [] content))"

text \<open>\<open>str(n)\<close> for a natural number: its decimal digits.\<close>

definition digit_char :: "nat \<Rightarrow> char" where
  "digit_char d = ''0123456789'' ! d"

fun str_nat :: "nat \<Rightarrow> string" where
  "str_nat n = (if n < 10 then [digit_char n] else str_nat (n div 10) @ [digit_char (n mod 10)])"

declare str_nat.simps [simp del]

text \<open>
  The three nested loops of load_corpus, innermost first. The accumulator is
  \<open>(texts, sources, chunk_index)\<close>; \<open>chunk_index\<close> is initialised once, before the loop
  over the files.
\<close>

type_synonym corpus_acc = "string list \<times> string list \<times> nat"

fun add_chunks :: "string \<Rightarrow> string list \<Rightarrow> corpus_acc \<Rightarrow> corpus_acc" where
  "add_chunks filename [] acc = acc"
| "add_chunks filename (chunk # rest) (texts, sources, chunk_index) =
     (if chunk = [] then add_chunks filename rest (texts, sources, chunk_index)
      else add_chunks filename rest
             (texts @ [chunk], sources @ [filename @ ''#'' @ str_nat chunk_index], chunk_index + 1))"

fun add_paragraphs :: "string \<Rightarrow> string list \<Rightarrow> corpus_acc \<Rightarrow> corpus_acc option" where
  "add_paragraphs filename [] acc = Some acc"
| "add_paragraphs filename (para # rest) acc =
     (case split_into_chunks para 200 40 of
        None \<Rightarrow> None
      | Some para_chunks \<Rightarrow> add_paragraphs filename rest (add_chunks filename para_chunks acc))"

definition read_file :: "(string \<times> corpus_file) list \<Rightarrow> string \<Rightarrow> error + string" where
  "read_file entries filename =
     (case map_of entries filename of Some (Readable content) \<Rightarrow> Inr content | _ \<Rightarrow> Inl ReadError)"

fun load_files ::
  "(string \<times> corpus_file) list \<Rightarrow> string list \<Rightarrow> corpus_acc \<Rightarrow> (error + corpus_acc) option" where
  "load_files entries [] acc = Some (Inr acc)"
| "load_files entries (filename # rest) acc =
     (case read_file entries filename of
        Inl e \<Rightarrow> Some (Inl e)
      | Inr content \<Rightarrow>
          (case add_paragraphs filename (paragraphs content) acc of
             None \<Rightarrow> None
           | Some acc' \<Rightarrow> load_files entries rest acc'))"

text \<open>
  load_corpus, at a corpus path that \<open>glob\<close> reads literally, that is a path without the
  characters \<open>*\<close>, \<open>?\<close> and \<open>[\<close>: then \<open>glob(os.path.join(path, "*.txt"))\<close> returns the
  eligible entries of the directory itself. \<open>load_corpus_at\<close> below takes the path as well.
  The outer \<open>option\<close> is \<open>None\<close> when the call does not return; \<open>Inl\<close> is a raised
  exception. \<open>sorted(glob(...))\<close> orders the paths as strings; they share the directory
  prefix, so this is the order of the file names.
\<close>

definition load_corpus :: "path_state \<Rightarrow> (error + string list \<times> string list) option" where
  "load_corpus path =
     (case path of
        NotADirectory \<Rightarrow> Some (Inl CorpusPathNotADirectory)
      | Directory entries \<Rightarrow>
          (let txt_files = sort (filter is_txt (map fst entries)) in
           if txt_files = [] then Some (Inl NoTxtFiles)
           else (case load_files entries txt_files ([], [], 0) of
                   None \<Rightarrow> None
                 | Some (Inl e) \<Rightarrow> Some (Inl e)
                 | Some (Inr (texts, sources, chunk_index)) \<Rightarrow> Some (Inr (texts, sources)))))"

section \<open>rag.py: embed_texts\<close>

text \<open>
  The embeddings endpoint is a parameter: a batch of texts gives one vector per text or an
  exception. Vector components are real numbers; rounding to float32 is not modelled.
  \<open>embed_loop\<close> is the \<open>for start in range(0, len(texts), batch_size)\<close> loop for a
  positive step; the test \<open>batch_size = 0\<close> only makes the recursion well-founded and is
  never reached from embed_texts.
\<close>

type_synonym embed_api = "string list \<Rightarrow> error + real list list"

function embed_loop ::
  "embed_api \<Rightarrow> string list \<Rightarrow> nat \<Rightarrow> nat \<Rightarrow> real list list \<Rightarrow> error + real list list" where
  "embed_loop api texts batch_size start all_vectors =
     (if batch_size = 0 \<or> length texts \<le> start then Inr all_vectors
      else (case api (take batch_size (drop start texts)) of
              Inl e \<Rightarrow> Inl e
            | Inr batch_vectors \<Rightarrow>
                embed_loop api texts batch_size (start + batch_size) (all_vectors @ batch_vectors)))"
  by pat_completeness auto
termination
  by (relation "measure (\<lambda>(api, texts, batch_size, start, all_vectors). length texts - start)") auto

declare embed_loop.simps [simp del]

definition embed_texts :: "embed_api \<Rightarrow> string list \<Rightarrow> int \<Rightarrow> error + real list list" where
  "embed_texts api texts batch_size =
     (if texts = [] then Inl EmptyTextList
      else if batch_size = 0 then Inl RangeStepZero
      else if batch_size < 0 then Inr []
      else embed_loop api texts (nat batch_size) 0 [])"

text \<open>An embedding capability that is a pure function of each text.\<close>

definition pure_api :: "(string \<Rightarrow> real list) \<Rightarrow> embed_api" where
  "pure_api f batch = Inr (map f batch)"

section \<open>rag.py: SimpleRAG\<close>

record rag_index =
  rag_texts :: "string list"
  rag_sources :: "string list"
  rag_embeddings :: "real list list"

text \<open>\<open>SimpleRAG.__init__\<close>: load the corpus, then embed every chunk.\<close>

definition build :: "embed_api \<Rightarrow> path_state \<Rightarrow> (error + rag_index) option" where
  "build api corpus_path =
     (case load_corpus corpus_path of
        None \<Rightarrow> None
      | Some (Inl e) \<Rightarrow> Some (Inl e)
      | Some (Inr (texts, sources)) \<Rightarrow>
          (case embed_texts api texts 64 of
             Inl e \<Rightarrow> Some (Inl e)
           | Inr vectors \<Rightarrow>
               Some (Inr \<lparr>rag_texts = texts, rag_sources = sources, rag_embeddings = vectors\<rparr>)))"

text \<open>
  The corpus path as a string. \<open>glob\<close> reads the characters \<open>*\<close>, \<open>?\<close> and \<open>[\<close> in the
  directory part of its pattern as wildcards (\<open>glob.has_magic\<close>); load_corpus does not
  escape them. At such a path \<open>glob\<close> returns the files of the directories that match the
  pattern, which need not be the directory at the path and depend on the rest of the file
  system: what load_corpus does from the \<open>glob\<close> call on is then the parameter
  \<open>wildcard_outcome\<close>. The test \<open>os.path.isdir\<close> comes first and reads the path literally.
\<close>

definition has_magic :: "string \<Rightarrow> bool" where
  "has_magic path = (CHR ''*'' \<in> set path \<or> CHR ''?'' \<in> set path \<or> CHR ''['' \<in> set path)"

definition load_corpus_at ::
  "string \<Rightarrow> path_state \<Rightarrow> (error + string list \<times> string list) option
     \<Rightarrow> (error + string list \<times> string list) option" where
  "load_corpus_at path state wildcard_outcome =
     (case state of
        NotADirectory \<Rightarrow> Some (Inl CorpusPathNotADirectory)
      | Directory entries \<Rightarrow>
          (if has_magic path then wildcard_outcome else load_corpus (Directory entries)))"

text \<open>\<open>SimpleRAG.__init__\<close> at a path: the loaded lists are embedded as in \<open>build\<close>.\<close>

definition embed_corpus ::
  "embed_api \<Rightarrow> (error + string list \<times> string list) option \<Rightarrow> (error + rag_index) option" where
  "embed_corpus api loaded =
     (case loaded of
        None \<Rightarrow> None
      | Some (Inl e) \<Rightarrow> Some (Inl e)
      | Some (Inr (texts, sources)) \<Rightarrow>
          (case embed_texts api texts 64 of
             Inl e \<Rightarrow> Some (Inl e)
           | Inr vectors \<Rightarrow>
               Some (Inr \<lparr>rag_texts = texts, rag_sources = sources, rag_embeddings = vectors\<rparr>)))"

definition build_at ::
  "embed_api \<Rightarrow> string \<Rightarrow> path_state \<Rightarrow> (error + string list \<times> string list) option
     \<Rightarrow> (error + rag_index) option" where
  "build_at api path state wildcard_outcome =
     embed_corpus api (load_corpus_at path state wildcard_outcome)"

section \<open>rag.py: cosine_similarity\<close>

text \<open>
  A floating-point value is a real number, an infinity (\<open>Inf True\<close> is \<open>+inf\<close>) or NaN.
  Rounding and overflow are not modelled: finite results are exact. Division follows
  IEEE 754 at a zero divisor, which numpy reports with a warning and not an exception:
  \<open>0/0\<close> is NaN and \<open>x/0\<close> is an infinity. The divisors here are norms, so a zero divisor
  is \<open>+0\<close>.
\<close>

datatype fval = Num real | Inf bool | NaN

definition fdiv :: "real \<Rightarrow> real \<Rightarrow> fval" where
  "fdiv x n = (if n \<noteq> 0 then Num (x / n) else if x = 0 then NaN else Inf (0 < x))"

fun fmul :: "fval \<Rightarrow> fval \<Rightarrow> fval" where
  "fmul (Num a) (Num b) = Num (a * b)"
| "fmul NaN y = NaN"
| "fmul x NaN = NaN"
| "fmul (Inf s) (Inf t) = Inf (s = t)"
| "fmul (Inf s) (Num b) = (if b = 0 then NaN else Inf (s = (0 < b)))"
| "fmul (Num a) (Inf t) = (if a = 0 then NaN else Inf ((0 < a) = t))"

fun fadd :: "fval \<Rightarrow> fval \<Rightarrow> fval" where
  "fadd (Num a) (Num b) = Num (a + b)"
| "fadd NaN y = NaN"
| "fadd x NaN = NaN"
| "fadd (Inf s) (Inf t) = (if s = t then Inf s else NaN)"
| "fadd (Inf s) (Num b) = Inf s"
| "fadd (Num a) (Inf t) = Inf t"

fun fneg :: "fval \<Rightarrow> fval" where
  "fneg (Num a) = Num (- a)"
| "fneg (Inf s) = Inf (\<not> s)"
| "fneg NaN = NaN"

text \<open>\<open>np.linalg.norm\<close> of a vector.\<close>

definition norm2 :: "real list \<Rightarrow> real" where
  "norm2 v = sqrt (sum_list (map (\<lambda>x. x * x) v))"

text \<open>One entry of the matrix-vector product \<open>d @ q\<close>.\<close>

definition dot :: "fval list \<Rightarrow> fval list \<Rightarrow> fval" where
  "dot row q = foldl fadd (Num 0) (map2 fmul row q)"

text \<open>
  cosine_similarity. \<open>doc_vecs\<close> is a list of rows; the empty list is the one-dimensional
  empty array, on which \<open>axis=1\<close> raises. The product raises unless every row has the
  length of the query vector.
\<close>

definition cosine_similarity :: "real list \<Rightarrow> real list list \<Rightarrow> error + fval list" where
  "cosine_similarity query_vec doc_vecs =
     (let q = map (\<lambda>x. fdiv x (norm2 query_vec)) query_vec in
      if doc_vecs = [] then Inl AxisError
      else let d = map (\<lambda>row. map (\<lambda>x. fdiv x (norm2 row)) row) doc_vecs in
           if \<forall>row\<in>set d. length row = length q then Inr (map (\<lambda>row. dot row q) d)
           else Inl ShapeMismatch)"

section \<open>rag.py: SimpleRAG.retrieve\<close>

text \<open>
  \<open>np.argsort\<close> is a parameter. With its default \<open>kind\<close> numpy promises indices that sort
  the array in ascending order with NaN last, and no order among equal keys;
  \<open>is_argsort\<close> is that contract and \<open>np_le\<close> the order.
\<close>

fun np_le :: "fval \<Rightarrow> fval \<Rightarrow> bool" where
  "np_le x NaN = True"
| "np_le NaN y = False"
| "np_le (Num a) (Num b) = (a \<le> b)"
| "np_le (Num a) (Inf t) = t"
| "np_le (Inf s) (Num b) = (\<not> s)"
| "np_le (Inf s) (Inf t) = (s \<longrightarrow> t)"

definition is_argsort :: "fval list \<Rightarrow> nat list \<Rightarrow> bool" where
  "is_argsort keys perm =
     (sort perm = [0..<length keys] \<and> sorted_wrt np_le (map (\<lambda>i. keys ! i) perm))"

text \<open>
  A model of what \<open>np.argsort\<close> computes for at most eight keys, none of them NaN, where
  numpy's quicksort runs its vectorised code (x86 with AVX-512 or AVX2). The keys are padded with
  \<open>+inf\<close> to eight lanes, each lane carrying its index, and put through a bitonic network
  of six compare-and-exchange steps. In a step every lane is compared with a partner
  lane and ends with the smaller or the larger key of the two; it keeps its own index when
  that key equals its own key and takes the partner's otherwise. The network sorts, but it
  does not keep equal keys in index order.
\<close>

fun cmp_lane :: "bool \<Rightarrow> fval \<times> nat \<Rightarrow> fval \<times> nat \<Rightarrow> fval \<times> nat" where
  "cmp_lane take_max (key, idx) (key', idx') =
     (let k = (if take_max then (if np_le key key' then key' else key)
               else (if np_le key key' then key else key'))
      in (k, if k = key then idx else idx'))"

definition cmp_merge :: "nat list \<Rightarrow> bool list \<Rightarrow> (fval \<times> nat) list \<Rightarrow> (fval \<times> nat) list" where
  "cmp_merge partner take_max lanes =
     map (\<lambda>(m, own, j). cmp_lane m own (lanes ! j)) (zip take_max (zip lanes partner))"

definition sort_zmm :: "(fval \<times> nat) list \<Rightarrow> (fval \<times> nat) list" where
  "sort_zmm lanes =
     (let oxAA = [False, True, False, True, False, True, False, True];
          oxCC = [False, False, True, True, False, False, True, True];
          oxF0 = [False, False, False, False, True, True, True, True];
          swap = [1, 0, 3, 2, 5, 4, 7, 6];
          rev4 = [3, 2, 1, 0, 7, 6, 5, 4];
          rev8 = [7, 6, 5, 4, 3, 2, 1, 0];
          dist2 = [2, 3, 0, 1, 6, 7, 4, 5]
      in cmp_merge swap oxAA (cmp_merge dist2 oxCC (cmp_merge rev8 oxF0
           (cmp_merge swap oxAA (cmp_merge rev4 oxCC (cmp_merge swap oxAA lanes))))))"

definition np_argsort8 :: "fval list \<Rightarrow> nat list" where
  "np_argsort8 keys =
     (let n = length keys;
          lanes = zip (keys @ replicate (8 - n) (Inf True)) ([0..<n] @ replicate (8 - n) 0)
      in map snd (take n (sort_zmm lanes)))"

text \<open>One retrieved item: the dictionary with the keys "text", "similarity", "source".\<close>

record result =
  r_text :: string
  r_similarity :: fval
  r_source :: string

text \<open>The loop over \<open>top_k_indices\<close>; an index outside a list raises.\<close>

fun make_results :: "rag_index \<Rightarrow> fval list \<Rightarrow> nat list \<Rightarrow> error + result list" where
  "make_results rag sims [] = Inr []"
| "make_results rag sims (idx # rest) =
     (if idx < length (rag_texts rag) \<and> idx < length sims \<and> idx < length (rag_sources rag) then
        (case make_results rag sims rest of
           Inl e \<Rightarrow> Inl e
         | Inr results \<Rightarrow>
             Inr (\<lparr>r_text = rag_texts rag ! idx, r_similarity = sims ! idx,
                   r_source = rag_sources rag ! idx\<rparr> # results))
      else Inl IndexError)"

definition retrieve ::
  "(fval list \<Rightarrow> nat list) \<Rightarrow> embed_api \<Rightarrow> rag_index \<Rightarrow> string \<Rightarrow> int \<Rightarrow> error + result list" where
  "retrieve argsort api rag query k =
     (case embed_texts api [query] 64 of
        Inl e \<Rightarrow> Inl e
      | Inr [] \<Rightarrow> Inl IndexError
      | Inr (query_vec # other) \<Rightarrow>
          (case cosine_similarity query_vec (rag_embeddings rag) of
             Inl e \<Rightarrow> Inl e
           | Inr sims \<Rightarrow>
               (let top_k_indices = py_slice (argsort (map fneg sims)) 0 k
                in make_results rag sims top_k_indices)))"


section \<open>The generation stages: planner.py, critic.py, revision.py\<close>

text \<open>
  The chat-completions endpoint is a parameter: a request gives the reply text or an
  exception. A request is the system prompt (the long prompt constants are kept as names),
  the user message, and whether it asks for \<open>temperature=0, top_p=0\<close>. Every call that
  returns is appended to a trace of requests, so that the calls of a run can be counted.
\<close>

datatype prompt =
    PLANNER_SYSTEM_PROMPT
  | DRAFT_SYSTEM_PROMPT
  | CRITIC_SYSTEM_PROMPT
  | REVISION_SYSTEM_PROMPT
  | APP_DRAFT_PROMPT      \<comment> \<open>the system message of the draft call in app_new.run_query\<close>
  | APP_REWRITE_PROMPT    \<comment> \<open>the system message of the safe-rewrite call in app_new.run_query\<close>

record request =
  req_system :: prompt
  req_user :: string
  req_zero_temperature :: bool

type_synonym chat_api = "request \<Rightarrow> error + string"

definition call :: "chat_api \<Rightarrow> request \<Rightarrow> request list \<Rightarrow> error + string \<times> request list" where
  "call chat req trace = (case chat req of Inl e \<Rightarrow> Inl e | Inr reply \<Rightarrow> Inr (reply, trace @ [req]))"

definition NL :: string where
  "NL = [CHR 0x0A]"

text \<open>\<open>sep.join(parts)\<close>.\<close>

fun join :: "string \<Rightarrow> string list \<Rightarrow> string" where
  "join sep [] = []"
| "join sep [p] = p"
| "join sep (p # q # ps) = p @ sep @ join sep (q # ps)"

text \<open>\<open>"\n\n".join(f"Document {i+1}: {d}" for i, d in enumerate(retrieved_docs))\<close>.\<close>

definition docs_text :: "string list \<Rightarrow> string" where
  "docs_text retrieved_docs =
     join (NL @ NL)
       (map (\<lambda>(i, d). ''Document '' @ str_nat (i + 1) @ '': '' @ d)
            (zip [0..<length retrieved_docs] retrieved_docs))"

definition plan_request :: "string \<Rightarrow> string list \<Rightarrow> request" where
  "plan_request query retrieved_docs =
     \<lparr>req_system = PLANNER_SYSTEM_PROMPT,
      req_user = ''User question:'' @ NL @ query @ NL @ NL @
                 ''Retrieved documents:'' @ NL @ docs_text retrieved_docs,
      req_zero_temperature = False\<rparr>"

definition generate_plan ::
  "chat_api \<Rightarrow> string \<Rightarrow> string list \<Rightarrow> request list \<Rightarrow> error + string \<times> request list" where
  "generate_plan chat query retrieved_docs trace = call chat (plan_request query retrieved_docs) trace"

definition draft_request :: "string \<Rightarrow> string list \<Rightarrow> string \<Rightarrow> request" where
  "draft_request query retrieved_docs plan =
     \<lparr>req_system = DRAFT_SYSTEM_PROMPT,
      req_user = ''User question:'' @ NL @ query @ NL @ NL @
                 ''Retrieved documents:'' @ NL @ docs_text retrieved_docs @ NL @ NL @
                 ''Plan:'' @ NL @ plan @ NL @ NL @
                 ''Now follow the plan and write a draft answer grounded in the documents.'',
      req_zero_temperature = False\<rparr>"

definition generate_draft_answer ::
  "chat_api \<Rightarrow> string \<Rightarrow> string list \<Rightarrow> string \<Rightarrow> request list \<Rightarrow> error + string \<times> request list" where
  "generate_draft_answer chat query retrieved_docs plan trace =
     call chat (draft_request query retrieved_docs plan) trace"

definition critic_request :: "string \<Rightarrow> string list \<Rightarrow> string \<Rightarrow> request" where
  "critic_request query retrieved_docs draft_answer =
     \<lparr>req_system = CRITIC_SYSTEM_PROMPT,
      req_user = ''User question:'' @ NL @ query @ NL @ NL @
                 ''Retrieved documents:'' @ NL @ docs_text retrieved_docs @ NL @ NL @
                 ''Draft answer:'' @ NL @ draft_answer,
      req_zero_temperature = True\<rparr>"

definition evaluate_answer ::
  "chat_api \<Rightarrow> string \<Rightarrow> string list \<Rightarrow> string \<Rightarrow> request list \<Rightarrow> error + string \<times> request list" where
  "evaluate_answer chat query retrieved_docs draft_answer trace =
     call chat (critic_request query retrieved_docs draft_answer) trace"

definition revision_request :: "string \<Rightarrow> string list \<Rightarrow> string \<Rightarrow> string \<Rightarrow> request" where
  "revision_request query retrieved_docs draft_answer critic_feedback =
     \<lparr>req_system = REVISION_SYSTEM_PROMPT,
      req_user = ''User question:'' @ NL @ query @ NL @ NL @
                 ''Retrieved documents (ground truth):'' @ NL @ docs_text retrieved_docs @ NL @ NL @
                 ''Draft answer:'' @ NL @ draft_answer @ NL @ NL @
                 ''Critic feedback:'' @ NL @ critic_feedback @ NL @ NL @
                 ''Please produce a revised final answer that follows the critic's feedback '' @
                 ''and stays grounded in the retrieved documents.'',
      req_zero_temperature = False\<rparr>"

definition revise_answer ::
  "chat_api \<Rightarrow> string \<Rightarrow> string list \<Rightarrow> string \<Rightarrow> string \<Rightarrow> request list
     \<Rightarrow> error + string \<times> request list" where
  "revise_answer chat query retrieved_docs draft_answer critic_feedback trace =
     call chat (revision_request query retrieved_docs draft_answer critic_feedback) trace"

section \<open>answer_pipeline.py: run_pipeline\<close>

text \<open>
  \<open>str.upper()\<close> on code points below 256: a letter becomes its capital and \<open>0xDF\<close>
  becomes \<open>SS\<close>. The capitals of \<open>0xB5\<close> and \<open>0xFF\<close> lie above 255; they are left in
  place here, which does not change any test against ASCII text.
\<close>

definition upper_char :: "char \<Rightarrow> string" where
  "upper_char c =
     (let n = (of_char c :: nat) in
      if 97 \<le> n \<and> n \<le> 122 then [char_of (n - 32)]
      else if n = 223 then ''SS''
      else if 224 \<le> n \<and> n \<le> 254 \<and> n \<noteq> 247 then [char_of (n - 32)]
      else [c])"

definition upper :: "string \<Rightarrow> string" where
  "upper s = concat (map upper_char s)"

text \<open>\<open>sub in s\<close> for strings.\<close>

fun starts_with :: "string \<Rightarrow> string \<Rightarrow> bool" where
  "starts_with s [] = True"
| "starts_with [] (c # sub) = False"
| "starts_with (x # s) (c # sub) = (x = c \<and> starts_with s sub)"

fun contains :: "string \<Rightarrow> string \<Rightarrow> bool" where
  "contains [] sub = (sub = [])"
| "contains (x # s) sub = (starts_with (x # s) sub \<or> contains s sub)"

record pipeline_run =
  pr_query :: string
  pr_retrieved_docs :: "string list"
  pr_sources :: "string list"
  pr_plan :: string
  pr_draft_answer :: string
  pr_critic_feedback :: string
  pr_final_answer :: string

text \<open>
  run_pipeline. The process-wide retriever \<open>RAG.retrieve\<close> is the parameter \<open>retrieve_fn\<close>.
\<close>

definition run_pipeline ::
  "(string \<Rightarrow> int \<Rightarrow> error + result list) \<Rightarrow> chat_api \<Rightarrow> string \<Rightarrow> int \<Rightarrow> request list
     \<Rightarrow> error + pipeline_run \<times> request list" where
  "run_pipeline retrieve_fn chat query k trace =
     (case retrieve_fn query k of
        Inl e \<Rightarrow> Inl e
      | Inr retrieved \<Rightarrow>
     (let retrieved_texts = map r_text retrieved;
          retrieved_sources = map r_source retrieved in
      case generate_plan chat query retrieved_texts trace of
        Inl e \<Rightarrow> Inl e
      | Inr (plan, trace1) \<Rightarrow>
     (case generate_draft_answer chat query retrieved_texts plan trace1 of
        Inl e \<Rightarrow> Inl e
      | Inr (draft_answer, trace2) \<Rightarrow>
     (case evaluate_answer chat query retrieved_texts draft_answer trace2 of
        Inl e \<Rightarrow> Inl e
      | Inr (critic_feedback, trace3) \<Rightarrow>
     (let critic_upper = upper critic_feedback;
          needs_revision = contains critic_upper ''VERDICT: REVISE'' in
      case (if needs_revision
            then revise_answer chat query retrieved_texts draft_answer critic_feedback trace3
            else Inr (draft_answer, trace3)) of
        Inl e \<Rightarrow> Inl e
      | Inr (final_answer, trace4) \<Rightarrow>
          Inr (\<lparr>pr_query = query, pr_retrieved_docs = retrieved_texts,
                pr_sources = retrieved_sources, pr_plan = plan,
                pr_draft_answer = draft_answer, pr_critic_feedback = critic_feedback,
                pr_final_answer = final_answer\<rparr>, trace4))))))"

text \<open>The number of calls of the Revision stage in a trace.\<close>

definition revision_calls :: "request list \<Rightarrow> nat" where
  "revision_calls trace = length (filter (\<lambda>r. req_system r = REVISION_SYSTEM_PROMPT) trace)"


section \<open>app_new.py: parse_critic_json and the responsible branch of run_query\<close>

text \<open>
  A value that \<open>json.loads\<close> returns. An object is an association list in which every key
  occurs once. A number is a real; the literals \<open>NaN\<close> and \<open>Infinity\<close>, which Python also
  accepts, are not modelled.
\<close>

datatype json =
    JNull
  | JBool bool
  | JNumber real
  | JString string
  | JArray "json list"
  | JObject "(string \<times> json) list"

text \<open>Python's truth value of such a value.\<close>

fun truthy :: "json \<Rightarrow> bool" where
  "truthy JNull = False"
| "truthy (JBool b) = b"
| "truthy (JNumber x) = (x \<noteq> 0)"
| "truthy (JString s) = (s \<noteq> [])"
| "truthy (JArray xs) = (xs \<noteq> [])"
| "truthy (JObject kvs) = (kvs \<noteq> [])"

text \<open>\<open>s.find(c)\<close> and \<open>s.rfind(c)\<close> for a single character: an index, or \<open>-1\<close>.\<close>

fun find_char :: "string \<Rightarrow> char \<Rightarrow> int" where
  "find_char [] c = - 1"
| "find_char (x # xs) c =
     (if x = c then 0 else (let r = find_char xs c in if r = - 1 then - 1 else r + 1))"

definition rfind_char :: "string \<Rightarrow> char \<Rightarrow> int" where
  "rfind_char s c =
     (let r = find_char (rev s) c in if r = - 1 then - 1 else int (length s) - 1 - r)"

text \<open>
  parse_critic_json. \<open>json.loads\<close> is a parameter that returns a value or raises; both
  \<open>try\<close> blocks catch every exception it raises.
\<close>

definition parse_critic_json :: "(string \<Rightarrow> error + json) \<Rightarrow> string \<Rightarrow> error + json" where
  "parse_critic_json loads txt =
     (if txt = [] then Inr (JObject [])
      else case loads txt of
        Inr v \<Rightarrow> Inr v
      | Inl e \<Rightarrow>
          (let start = find_char txt CHR ''{'';
               stop = rfind_char txt CHR ''}'' in
           if start \<noteq> - 1 \<and> stop \<noteq> - 1 \<and> stop > start then
             (let snippet = py_slice txt start (stop + 1) in
              case loads snippet of
                Inr v \<Rightarrow> Inr v
              | Inl e' \<Rightarrow> Inr (JObject []))
           else Inr (JObject [])))"

text \<open>
  get_doc_text on a retrieved dictionary, which has no key "content":
  \<open>doc.get("content") or doc.get("text") or str(doc)\<close>. \<open>str\<close> of a dictionary is a
  parameter.
\<close>

definition get_doc_text :: "(result \<Rightarrow> string) \<Rightarrow> result \<Rightarrow> string" where
  "get_doc_text str_dict doc = (if r_text doc \<noteq> [] then r_text doc else str_dict doc)"

text \<open>\<open>d.get(key)\<close>: a dictionary gives the value or \<open>None\<close>; any other value has no \<open>get\<close>.\<close>

definition json_get :: "json \<Rightarrow> string \<Rightarrow> error + json" where
  "json_get v key =
     (case v of
        JObject kvs \<Rightarrow> Inr (case map_of kvs key of Some x \<Rightarrow> x | None \<Rightarrow> JNull)
      | _ \<Rightarrow> Inl AttributeError)"

text \<open>
  The dictionary passed to \<open>meta.update\<close>: seven \<open>.get\<close> calls, evaluated in order; the
  first that raises ends the evaluation.
\<close>

fun get_all :: "json \<Rightarrow> (string \<times> string) list \<Rightarrow> error + (string \<times> json) list" where
  "get_all v [] = Inr []"
| "get_all v ((meta_key, key) # rest) =
     (case json_get v key of
        Inl e \<Rightarrow> Inl e
      | Inr x \<Rightarrow> (case get_all v rest of Inl e \<Rightarrow> Inl e | Inr xs \<Rightarrow> Inr ((meta_key, x) # xs)))"

definition critic_meta :: "json \<Rightarrow> error + (string \<times> json) list" where
  "critic_meta critic_parsed =
     get_all critic_parsed
       [(''overall_score'', ''overall_score''), (''grounding_score'', ''grounding_score''),
        (''safety_score'', ''safety_score''), (''hallucination_risk'', ''hallucination_risk''),
        (''issues'', ''issues''), (''suggestions'', ''suggestions''),
        (''critic_summary'', ''summary'')]"

definition app_draft_request :: "string \<Rightarrow> string list \<Rightarrow> string \<Rightarrow> request" where
  "app_draft_request query texts plan =
     \<lparr>req_system = APP_DRAFT_PROMPT,
      req_user = ''Plan:'' @ NL @ plan @ NL @ NL @ ''User question:'' @ NL @ query @ NL @ NL @
                 ''Retrieved context:'' @ NL @ join (NL @ NL) texts,
      req_zero_temperature = False\<rparr>"

definition app_rewrite_request :: "string \<Rightarrow> string list \<Rightarrow> string \<Rightarrow> string \<Rightarrow> request" where
  "app_rewrite_request query texts draft_text critic_json_str =
     \<lparr>req_system = APP_REWRITE_PROMPT,
      req_user = ''User question:'' @ NL @ query @ NL @ NL @
                 ''Retrieved documents:'' @ NL @ join (NL @ NL) texts @ NL @ NL @
                 ''Original draft answer:'' @ NL @ draft_text @ NL @ NL @
                 ''Critic feedback (JSON or text):'' @ NL @ critic_json_str,
      req_zero_temperature = False\<rparr>"

text \<open>
  The content of the response of the responsible branch. \<open>resp_meta\<close> holds the entries
  that \<open>meta.update\<close> adds (none when the parsed critic value is falsy); the entries
  "mode", "evidence_score" and "num_sources" are computed without a call that can raise
  and are left out.
\<close>

record response =
  resp_retrieved :: "result list"
  resp_plan :: string
  resp_critic :: "string + json"
  resp_critic_raw :: string
  resp_safe_answer :: string
  resp_answer :: string
  resp_meta :: "(string \<times> json) list"

record externals =
  ext_retrieve :: "string \<Rightarrow> error + result list"  \<comment> \<open>\<open>rag.retrieve(query)\<close>\<close>
  ext_chat :: chat_api                                 \<comment> \<open>\<open>client.chat.completions.create\<close>\<close>
  ext_loads :: "string \<Rightarrow> error + json"               \<comment> \<open>\<open>json.loads\<close>\<close>
  ext_dumps :: "json \<Rightarrow> string"                       \<comment> \<open>\<open>json.dumps(..., ensure_ascii=False)\<close>\<close>
  ext_str :: "result \<Rightarrow> string"                       \<comment> \<open>\<open>str\<close> of a dictionary\<close>

definition run_query_responsible ::
  "externals \<Rightarrow> string \<Rightarrow> request list \<Rightarrow> error + response \<times> request list" where
  "run_query_responsible ext query trace =
     (case ext_retrieve ext query of
        Inl e \<Rightarrow> Inl e
      | Inr docs \<Rightarrow>
     (let texts = map (get_doc_text (ext_str ext)) docs in
      case generate_plan (ext_chat ext) query texts trace of
        Inl e \<Rightarrow> Inl e
      | Inr (plan, trace1) \<Rightarrow>
     (case call (ext_chat ext) (app_draft_request query texts plan) trace1 of
        Inl e \<Rightarrow> Inl e
      | Inr (draft_text, trace2) \<Rightarrow>
     (case evaluate_answer (ext_chat ext) query texts draft_text trace2 of
        Inl e \<Rightarrow> Inl e
      | Inr (critic_text, trace3) \<Rightarrow>
     (case parse_critic_json (ext_loads ext) critic_text of
        Inl e \<Rightarrow> Inl e
      | Inr critic_parsed \<Rightarrow>
     (let critic_json_str =
            (if truthy critic_parsed then ext_dumps ext critic_parsed else critic_text) in
      case call (ext_chat ext) (app_rewrite_request query texts draft_text critic_json_str) trace3 of
        Inl e \<Rightarrow> Inl e
      | Inr (safe_answer, trace4) \<Rightarrow>
     (case (if truthy critic_parsed then critic_meta critic_parsed else Inr []) of
        Inl e \<Rightarrow> Inl e
      | Inr meta \<Rightarrow>
          Inr (\<lparr>resp_retrieved = docs, resp_plan = plan,
                resp_critic = (if truthy critic_parsed then Inr critic_parsed else Inl critic_text),
                resp_critic_raw = critic_text, resp_safe_answer = safe_answer,
                resp_answer = safe_answer, resp_meta = meta\<rparr>, trace4))))))))"

section \<open>Predicates used in the statements\<close>

text \<open>A word as \<open>split\<close> returns it: not empty and free of whitespace.\<close>

definition is_word :: "string \<Rightarrow> bool" where
  "is_word w = (w \<noteq> [] \<and> (\<forall>c\<in>set w. \<not> isspace c))"

text \<open>
  The accumulator of load_corpus is numbered: as many sources as texts, the counter equal
  to their number, and the source at position \<open>k\<close> is a document name, \<open>#\<close> and \<open>k\<close>.
\<close>

definition numbered :: "string set \<Rightarrow> corpus_acc \<Rightarrow> bool" where
  "numbered names acc =
     (case acc of (texts, sources, chunk_index) \<Rightarrow>
        length texts = length sources \<and> chunk_index = length sources \<and>
        (\<forall>k<length sources. \<exists>name\<in>names. sources ! k = name @ ''#'' @ str_nat k))"

text \<open>
  The order of a retrieval result: \<open>sim_ge a b\<close> when \<open>a\<close> sorts before or with \<open>b\<close>, that
  is \<open>a \<ge> b\<close>, with NaN after every number.
\<close>

definition sim_ge :: "fval \<Rightarrow> fval \<Rightarrow> bool" where
  "sim_ge a b = np_le (fneg a) (fneg b)"

text \<open>The number of calls of the safe rewrite of app_new.run_query in a trace.\<close>

definition rewrite_calls :: "request list \<Rightarrow> nat" where
  "rewrite_calls trace = length (filter (\<lambda>r. req_system r = APP_REWRITE_PROMPT) trace)"

section \<open>Concrete inputs\<close>

text \<open>A corpus directory with two text documents and one other file, listed out of order.\<close>

definition dir_two :: path_state where
  "dir_two = Directory [(''b.txt'', Readable ''x y''), (''notes.md'', Readable ''n''),
                        (''a.txt'', Readable (''p q'' @ NL @ NL @ ''r''))]"

text \<open>
  A corpus of five chunks and an embedding capability that gives chunks 0 and 2 the same
  vector; the query \<open>q\<close> is embedded as \<open>[1, 0]\<close>, so the similarities are
  \<open>3/5, 1, 3/5, 0, 4/5\<close>.
\<close>

definition dir_five :: path_state where
  "dir_five = Directory [(''a.txt'', Readable (''a'' @ NL @ NL @ ''b'' @ NL @ NL @ ''c'' @ NL @ NL @
                                                ''d'' @ NL @ NL @ ''e''))]"

definition api_five :: embed_api where
  "api_five = pure_api (\<lambda>t. if t = ''b'' \<or> t = ''q'' then [1, 0]
                               else if t = ''e'' then [4, 3]
                               else if t = ''d'' then [0, 1]
                               else [3, 4])"

definition rag_five :: rag_index where
  "rag_five = \<lparr>rag_texts = [''a'', ''b'', ''c'', ''d'', ''e''],
               rag_sources = [''a.txt#0'', ''a.txt#1'', ''a.txt#2'', ''a.txt#3'', ''a.txt#4''],
               rag_embeddings = [[3, 4], [1, 0], [3, 4], [0, 1], [4, 3]]\<rparr>"

text \<open>An embedding capability with three different vectors, and the index it builds from \<open>dir_two\<close>.\<close>

definition api_w :: embed_api where
  "api_w = pure_api (\<lambda>t. if t = ''r'' then [0, 1] else if t = ''x y'' then [3, 4] else [1, 0])"

definition rag_w :: rag_index where
  "rag_w = \<lparr>rag_texts = [''p q'', ''r'', ''x y''], rag_sources = [''a.txt#0'', ''a.txt#1'', ''b.txt#2''],
            rag_embeddings = [[1, 0], [0, 1], [3, 4]]\<rparr>"

text \<open>
  A retriever with one chunk, and a chat endpoint that answers every stage with a fixed
  text and the critic with the given reply.
\<close>

definition retrieve_one :: "string \<Rightarrow> int \<Rightarrow> error + result list" where
  "retrieve_one query k = Inr [\<lparr>r_text = ''doc'', r_similarity = Num 1, r_source = ''a.txt#0''\<rparr>]"

definition chat_with_critic :: "string \<Rightarrow> chat_api" where
  "chat_with_critic critic_reply req =
     (case req_system req of
        PLANNER_SYSTEM_PROMPT \<Rightarrow> Inr ''plan''
      | DRAFT_SYSTEM_PROMPT \<Rightarrow> Inr ''draft''
      | CRITIC_SYSTEM_PROMPT \<Rightarrow> Inr critic_reply
      | REVISION_SYSTEM_PROMPT \<Rightarrow> Inr ''final''
      | APP_DRAFT_PROMPT \<Rightarrow> Inr ''draft''
      | APP_REWRITE_PROMPT \<Rightarrow> Inr ''safe'')"

text \<open>
  The externals of app_new.run_query for a given critic reply. \<open>loads_number\<close> agrees with
  \<open>json.loads\<close> on the two texts it is applied to here: \<open>0.8\<close> is a JSON number, and
  \<open>not json\<close> is not JSON.
\<close>

definition loads_number :: "string \<Rightarrow> error + json" where
  "loads_number s = (if s = ''0.8'' then Inr (JNumber (4 / 5)) else Inl JSONDecodeError)"

definition ext_with_critic :: "string \<Rightarrow> externals" where
  "ext_with_critic critic_reply =
     \<lparr>ext_retrieve = (\<lambda>query. retrieve_one query 3),
      ext_chat = chat_with_critic critic_reply,
      ext_loads = loads_number,
      ext_dumps = (\<lambda>v. ''0.8''),
      ext_str = (\<lambda>doc. ''{}'')\<rparr>"

section \<open>Properties\<close>

lemma split_ws_all_space: "\<forall>c\<in>set t. isspace c \<Longrightarrow> split_ws t = []"
  by (induction t) auto

lemma split_ws_words: "w \<in> set (split_ws s) \<Longrightarrow> is_word w"
proof (induction s rule: split_ws.induct)
  case 1
  then show ?case by simp
next
  case (2 c cs)
  show ?case
  proof (cases "isspace c")
    case True
    with 2 show ?thesis by simp
  next
    case False
    from 2(3) False have "w = takeWhile (\<lambda>x. \<not> isspace x) (c # cs) \<or> w \<in> set (split_ws (dropWhile (\<lambda>x. \<not> isspace x) cs))"
      by simp
    then show ?thesis
    proof
      assume "w = takeWhile (\<lambda>x. \<not> isspace x) (c # cs)"
      then show ?thesis using False by (auto simp: is_word_def dest: set_takeWhileD)
    next
      assume "w \<in> set (split_ws (dropWhile (\<lambda>x. \<not> isspace x) cs))"
      then show ?thesis using 2(2) False by simp
    qed
  qed
qed

lemma split_ws_word_append:
  assumes "is_word w" and "rest = [] \<or> isspace (hd rest)"
  shows "split_ws (w @ rest) = w # split_ws rest"
proof -
  from assms(1) obtain c cs where w: "w = c # cs" and c: "\<not> isspace c" and cs: "\<forall>x\<in>set cs. \<not> isspace x"
    by (cases w) (auto simp: is_word_def)
  have tw: "takeWhile (\<lambda>x. \<not> isspace x) (cs @ rest) = cs"
    using cs assms(2) by (cases rest) (auto simp: takeWhile_append2)
  have dw: "dropWhile (\<lambda>x. \<not> isspace x) (cs @ rest) = rest"
    using cs assms(2) by (cases rest) (auto simp: dropWhile_append2)
  have "split_ws rest = split_ws (dropWhile (\<lambda>x. \<not> isspace x) rest)"
    using assms(2) by (cases rest) auto
  show ?thesis using c tw dw by (simp add: w)
qed

lemma split_ws_join: "\<forall>w\<in>set ws. is_word w \<Longrightarrow> split_ws (join_sp ws) = ws"
proof (induction ws rule: join_sp.induct)
  case 1
  then show ?case by simp
next
  case (2 w)
  then show ?case using split_ws_word_append[of w "[]"] by simp
next
  case (3 w v vs)
  have sp: "isspace (CHR '' '')" by (simp add: isspace_def)
  have "split_ws (w @ CHR '' '' # join_sp (v # vs)) = w # split_ws (CHR '' '' # join_sp (v # vs))"
    using 3(2) by (intro split_ws_word_append) (auto simp: sp)
  also have "split_ws (CHR '' '' # join_sp (v # vs)) = split_ws (join_sp (v # vs))"
    using sp by simp
  also have "\<dots> = v # vs" using 3 by simp
  finally show ?case by simp
qed

lemma split_ws_dropWhile: "split_ws (dropWhile isspace s) = split_ws s"
  by (induction s) auto

lemma split_ws_append_space:
  "\<forall>c\<in>set t. isspace c \<Longrightarrow> split_ws (s @ t) = split_ws s"
proof (induction s rule: split_ws.induct)
  case 1
  then show ?case by (simp add: split_ws_all_space)
next
  case (2 c cs)
  show ?case
  proof (cases "isspace c")
    case True
    with 2 show ?thesis by simp
  next
    case False
    show ?thesis
    proof (cases "\<forall>x\<in>set cs. \<not> isspace x")
      case True
      then have w: "is_word (c # cs)" using False by (simp add: is_word_def)
      have "rest = [] \<or> isspace (hd rest)" if "rest = t" for rest
        using 2(3) that by (cases t) auto
      then have "split_ws ((c # cs) @ t) = (c # cs) # split_ws t"
        using split_ws_word_append[OF w, of t] by simp
      moreover have "split_ws ((c # cs) @ []) = (c # cs) # split_ws []"
        using split_ws_word_append[OF w, of "[]"] by simp
      ultimately show ?thesis using 2(3) by (simp add: split_ws_all_space)
    next
      case F2: False
      then have tw: "takeWhile (\<lambda>x. \<not> isspace x) (cs @ t) = takeWhile (\<lambda>x. \<not> isspace x) cs"
        by (auto simp: takeWhile_append1)
      from F2 have dw: "dropWhile (\<lambda>x. \<not> isspace x) (cs @ t) = dropWhile (\<lambda>x. \<not> isspace x) cs @ t"
        by (auto simp: dropWhile_append1)
      show ?thesis using False 2(2)[OF False 2(3)] tw dw by simp
    qed
  qed
qed

lemma rev_dropWhile_takeWhile: "rev (dropWhile P xs) @ rev (takeWhile P xs) = rev xs"
  by (metis rev_append takeWhile_dropWhile_id)

lemma split_ws_strip: "split_ws (strip s) = split_ws s"
proof -
  define s' where "s' = dropWhile isspace s"
  have "strip s @ rev (takeWhile isspace (rev s')) = s'"
    using rev_dropWhile_takeWhile[of isspace "rev s'"] by (simp add: strip_def s'_def)
  moreover have "\<forall>c\<in>set (rev (takeWhile isspace (rev s'))). isspace c"
    by (auto dest: set_takeWhileD)
  ultimately have "split_ws s' = split_ws (strip s)"
    using split_ws_append_space by metis
  then show ?thesis by (simp add: s'_def split_ws_dropWhile)
qed

lemma py_slice_window:
  assumes "0 \<le> start" "0 \<le> m"
  shows "py_slice xs start (start + m) = take (nat m) (drop (nat start) xs)"
  using assms by (auto simp: py_slice_def Let_def min_def max_def)

lemma chunk_words_ok:
  assumes "\<forall>w\<in>set words. is_word w" "0 \<le> start" "0 \<le> m"
  shows "split_ws (strip (join_sp (py_slice words start (start + m)))) = py_slice words start (start + m)"
    and "int (length (py_slice words start (start + m))) \<le> m"
proof -
  have "set (py_slice words start (start + m)) \<subseteq> set words"
    using assms(2,3) by (auto simp: py_slice_window dest: in_set_takeD in_set_dropD)
  then show "split_ws (strip (join_sp (py_slice words start (start + m)))) = py_slice words start (start + m)"
    using assms(1) by (simp add: split_ws_strip split_ws_join subset_iff)
  show "int (length (py_slice words start (start + m))) \<le> m"
    using assms(2,3) by (simp add: py_slice_window)
qed

lemma chunk_loop_returns:
  assumes "\<forall>w\<in>set words. is_word w" "0 \<le> overlap" "overlap < max_words" "0 \<le> start"
  shows "\<exists>r. chunk_loop words max_words overlap start chunks = Some r \<and>
           (\<forall>c\<in>set r. c \<in> set chunks \<or> int (length (split_ws c)) \<le> max_words)"
  using assms(4)
proof (induction "nat (int (length words) - start)" arbitrary: start chunks rule: less_induct)
  case less
  show ?case
  proof (cases "start < int (length words)")
    case False
    then show ?thesis by (subst chunk_loop.simps) simp
  next
    case True
    let ?cw = "py_slice words start (start + max_words)"
    let ?c = "strip (join_sp ?cw)"
    let ?s = "start + max_words - overlap"
    have m: "0 \<le> max_words" using assms(2,3) by simp
    have "nat (int (length words) - ?s) < nat (int (length words) - start)"
      using True assms(3) by simp
    moreover have "0 \<le> ?s" using less.prems assms(3) by simp
    ultimately obtain r where r: "chunk_loop words max_words overlap ?s (chunks @ [?c]) = Some r"
      and rs: "\<forall>c\<in>set r. c \<in> set (chunks @ [?c]) \<or> int (length (split_ws c)) \<le> max_words"
      using less.hyps[of ?s "chunks @ [?c]"] by blast
    have "int (length (split_ws ?c)) \<le> max_words"
      using chunk_words_ok[OF assms(1) less.prems m] by simp
    with rs have "\<forall>c\<in>set r. c \<in> set chunks \<or> int (length (split_ws c)) \<le> max_words"
      by auto
    moreover have "chunk_loop words max_words overlap start chunks = Some r"
      using True r by (subst chunk_loop.simps) (simp add: Let_def)
    ultimately show ?thesis by blast
  qed
qed

lemma chunk_loop_Some_imp:
  assumes "chunk_loop words max_words overlap start chunks = Some r"
  shows "max_words \<le> overlap \<longrightarrow> \<not> start < int (length words)"
proof (rule chunk_loop.raw_induct
    [where P = "\<lambda>ws m ov s cs y. m \<le> ov \<longrightarrow> \<not> s < int (length ws)", OF _ assms])
  fix loop :: "string list \<Rightarrow> int \<Rightarrow> int \<Rightarrow> int \<Rightarrow> string list \<Rightarrow> string list option"
  fix ws :: "string list" and m ov s :: int and cs y :: "string list"
  assume IH: "\<And>ws m ov s cs y. loop ws m ov s cs = Some y \<Longrightarrow> m \<le> ov \<longrightarrow> \<not> s < int (length ws)"
  assume step: "(if s < int (length ws)
      then let stop = s + m; chunk_words = py_slice ws s stop
           in loop ws m ov (stop - ov) (cs @ [strip (join_sp chunk_words)])
      else Some cs) = Some y"
  show "m \<le> ov \<longrightarrow> \<not> s < int (length ws)"
  proof (intro impI notI)
    assume le: "m \<le> ov" and lt: "s < int (length ws)"
    from step lt have "loop ws m ov (s + m - ov) (cs @ [strip (join_sp (py_slice ws s (s + m)))]) = Some y"
      by (simp add: Let_def)
    from IH[OF this] le lt show False by simp
  qed
qed

lemma chunk_loop_diverges:
  assumes "max_words \<le> overlap" "start < int (length words)"
  shows "chunk_loop words max_words overlap start chunks = None"
  using chunk_loop_Some_imp[of words max_words overlap start chunks] assms
  by (cases "chunk_loop words max_words overlap start chunks") auto

lemma split_ws_Nil_iff: "split_ws s = [] \<longleftrightarrow> (\<forall>c\<in>set s. isspace c)"
  by (induction s) auto

lemma split_ws_nonempty: "strip s \<noteq> [] \<Longrightarrow> split_ws s \<noteq> []"
  by (auto simp: strip_def split_ws_Nil_iff dropWhile_eq_Nil_conv dest: set_dropWhileD)

lemma chunk_loop_terminates:
  assumes "overlap < max_words"
  shows "\<exists>r. chunk_loop words max_words overlap start chunks = Some r"
proof (induction "nat (int (length words) - start)" arbitrary: start chunks rule: less_induct)
  case less
  show ?case
  proof (cases "start < int (length words)")
    case False
    then show ?thesis by (subst chunk_loop.simps) simp
  next
    case True
    let ?c = "strip (join_sp (py_slice words start (start + max_words)))"
    let ?s = "start + max_words - overlap"
    have "nat (int (length words) - ?s) < nat (int (length words) - start)"
      using True assms by simp
    then obtain r where "chunk_loop words max_words overlap ?s (chunks @ [?c]) = Some r"
      using less.hyps[of ?s "chunks @ [?c]"] by blast
    then have "chunk_loop words max_words overlap start chunks = Some r"
      using True by (subst chunk_loop.simps) (simp add: Let_def)
    then show ?thesis by blast
  qed
qed

lemma split_into_chunks_bounded:
  assumes "0 \<le> overlap" and "overlap < max_words"
  shows "\<exists>chunks. split_into_chunks txt max_words overlap = Some chunks \<and>
           (\<forall>c\<in>set chunks. int (length (split_ws c)) \<le> max_words) \<and>
           (strip txt \<noteq> [] \<and> int (length (split_ws txt)) \<le> max_words \<longrightarrow> chunks = [strip txt])"
proof (cases "split_ws txt = []")
  case True
  then have "strip txt = []" using split_ws_nonempty by blast
  with True show ?thesis by (simp add: split_into_chunks_def)
next
  case False
  show ?thesis
  proof (cases "int (length (split_ws txt)) \<le> max_words")
    case True
    with False show ?thesis by (simp add: split_into_chunks_def split_ws_strip)
  next
    case long: False
    have "\<forall>w\<in>set (split_ws txt). is_word w" using split_ws_words by blast
    from chunk_loop_returns[OF this assms, of 0 "[]"]
    obtain r where "chunk_loop (split_ws txt) max_words overlap 0 [] = Some r"
      and "\<forall>c\<in>set r. int (length (split_ws c)) \<le> max_words" by auto
    with False long show ?thesis by (simp add: split_into_chunks_def)
  qed
qed

subsection \<open>C10: termination of the chunk-splitting loop\<close>

text \<open>
  C10. With \<open>0 \<le> overlap < max_words\<close> split_into_chunks returns for every text: each
  iteration moves the window start forward by \<open>max_words - overlap > 0\<close>. The condition is
  needed: with \<open>overlap \<ge> max_words\<close> and a text of more than \<open>max_words\<close> words (at least
  one word) the start never passes the end and the call does not return.
\<close>

theorem split_into_chunks_terminates_iff:
  "(0 \<le> overlap \<and> overlap < max_words \<longrightarrow>
      (\<exists>chunks. split_into_chunks txt max_words overlap = Some chunks)) \<and>
   (max_words \<le> overlap \<and> max_words < int (length (split_ws txt)) \<and> split_ws txt \<noteq> [] \<longrightarrow>
      split_into_chunks txt max_words overlap = None)"
proof (intro conjI impI)
  assume "0 \<le> overlap \<and> overlap < max_words"
  then show "\<exists>chunks. split_into_chunks txt max_words overlap = Some chunks"
    using chunk_loop_terminates[of overlap max_words "split_ws txt" 0 "[]"]
    by (auto simp: split_into_chunks_def Let_def)
next
  assume a: "max_words \<le> overlap \<and> max_words < int (length (split_ws txt)) \<and> split_ws txt \<noteq> []"
  then have "chunk_loop (split_ws txt) max_words overlap 0 [] = None"
    by (intro chunk_loop_diverges) auto
  with a show "split_into_chunks txt max_words overlap = None"
    by (simp add: split_into_chunks_def)
qed

theorem split_into_chunks_terminates_iff_witness:
  "split_into_chunks ''a b c'' 2 1 = Some [''a b'', ''b c'', ''c''] \<and>
   split_into_chunks ''a b c'' 2 2 = None"
proof -
  have w: "split_ws ''a b c'' = [''a'', ''b'', ''c'']" by (simp add: isspace_def)
  have "split_into_chunks ''a b c'' 2 1 = Some [''a b'', ''b c'', ''c'']"
    by (simp add: split_into_chunks_def isspace_def chunk_loop.simps py_slice_def strip_def)
  moreover have "\<exists>chunks. split_into_chunks ''a b c'' 2 1 = Some chunks"
    using split_into_chunks_terminates_iff[of 1 2 "''a b c''"] by simp
  moreover have "split_into_chunks ''a b c'' 2 2 = None"
    using split_into_chunks_terminates_iff[of 2 2 "''a b c''"] w by simp
  ultimately show ?thesis by simp
qed

lemma embed_loop_pure:
  assumes "0 < b"
  shows "embed_loop (pure_api f) texts b start acc = Inr (acc @ map f (drop start texts))"
proof (induction "length texts - start" arbitrary: start acc rule: less_induct)
  case less
  show ?case
  proof (cases "length texts \<le> start")
    case True
    then show ?thesis by (subst embed_loop.simps) simp
  next
    case False
    then have "length texts - (start + b) < length texts - start" using assms by simp
    from less.hyps[OF this]
    have "embed_loop (pure_api f) texts b (start + b) (acc @ map f (take b (drop start texts)))
        = Inr ((acc @ map f (take b (drop start texts))) @ map f (drop (start + b) texts))" .
    moreover have "take b (drop start texts) @ drop (start + b) texts = drop start texts"
      by (metis add.commute append_take_drop_id drop_drop)
    then have "map f (take b (drop start texts)) @ map f (drop (start + b) texts) = map f (drop start texts)"
      by (metis map_append)
    ultimately show ?thesis using False assms
      by (subst embed_loop.simps) (simp add: pure_api_def)
  qed
qed

lemma embed_texts_pure:
  "texts \<noteq> [] \<Longrightarrow> 0 < b \<Longrightarrow> embed_texts (pure_api f) texts b = Inr (map f texts)"
  by (simp add: embed_texts_def embed_loop_pure)

subsection \<open>C8: batch boundaries do not change the embeddings\<close>

text \<open>
  C8. When the embedding capability is a pure function \<open>f\<close> of each text, embed_texts on a
  non-empty list gives the same matrix for any two positive batch sizes: one row per
  text, row \<open>i\<close> being \<open>f (texts ! i)\<close>.
\<close>

theorem embed_texts_batch_independent:
  assumes "texts \<noteq> []" and "0 < b1" and "0 < b2"
  shows "embed_texts (pure_api f) texts b1 = embed_texts (pure_api f) texts b2 \<and>
         embed_texts (pure_api f) texts b1 = Inr (map f texts)"
  using assms by (simp add: embed_texts_pure)

theorem embed_texts_batch_independent_witness:
  "[''a'', ''bb'', ''ccc''] \<noteq> [] \<and> (0::int) < 1 \<and> (0::int) < 2 \<and>
   embed_texts (pure_api (\<lambda>s. [real (length s)])) [''a'', ''bb'', ''ccc''] 1 = Inr [[1], [2], [3]] \<and>
   embed_texts (pure_api (\<lambda>s. [real (length s)])) [''a'', ''bb'', ''ccc''] 2 = Inr [[1], [2], [3]]"
proof -
  let ?f = "\<lambda>s. [real (length s)]"
  let ?texts = "[''a'', ''bb'', ''ccc'']"
  have h: "?texts \<noteq> []" "(0::int) < 1" "(0::int) < 2" by simp_all
  note t = embed_texts_batch_independent[OF h, of ?f]
  from t[THEN conjunct2] have one: "embed_texts (pure_api ?f) ?texts 1 = Inr [[1], [2], [3]]"
    by simp
  from t[THEN conjunct1] one have "embed_texts (pure_api ?f) ?texts 2 = Inr [[1], [2], [3]]"
    by simp
  with one show ?thesis by simp
qed

lemma digit_cases:
  "d < 10 \<Longrightarrow> d = 0 \<or> d = 1 \<or> d = 2 \<or> d = 3 \<or> d = 4 \<or> d = 5 \<or> d = 6 \<or> d = 7 \<or> d = 8 \<or> d = (9::nat)"
  by arith

lemma digit_char_code: "d < 10 \<Longrightarrow> of_char (digit_char d) = 48 + d"
  by (drule digit_cases) (elim disjE; simp add: digit_char_def)

lemma digit_char_inj: "a < 10 \<Longrightarrow> b < 10 \<Longrightarrow> digit_char a = digit_char b \<Longrightarrow> a = b"
proof -
  assume "a < 10" "b < 10" "digit_char a = digit_char b"
  then have "(48 + a :: nat) = 48 + b"
    using digit_char_code[of a] digit_char_code[of b] by (metis of_char_eq_iff)
  then show "a = b" by simp
qed

lemma digit_char_not_hash: "d < 10 \<Longrightarrow> digit_char d \<noteq> CHR ''#''"
  by (drule digit_cases) (elim disjE; simp add: digit_char_def)

lemma str_nat_not_Nil: "str_nat n \<noteq> []"
  by (subst str_nat.simps) simp

lemma str_nat_no_hash: "CHR ''#'' \<notin> set (str_nat n)"
proof (induction n rule: str_nat.induct)
  case (1 n)
  show ?case
  proof (cases "n < 10")
    case True
    then show ?thesis using digit_char_not_hash[of n] by (subst str_nat.simps) auto
  next
    case False
    then show ?thesis using 1 digit_char_not_hash[of "n mod 10"]
      by (subst str_nat.simps) auto
  qed
qed

lemma str_nat_inj: "str_nat a = str_nat b \<Longrightarrow> a = b"
proof (induction a arbitrary: b rule: str_nat.induct)
  case (1 a)
  show ?case
  proof (cases "a < 10")
    case a: True
    show ?thesis
    proof (cases "b < 10")
      case True
      with a 1(2) show ?thesis
        using digit_char_inj[of a b] by (simp add: str_nat.simps[of a] str_nat.simps[of b])
    next
      case False
      with a 1(2) show ?thesis
        using str_nat_not_Nil[of "b div 10"] by (simp add: str_nat.simps[of a] str_nat.simps[of b])
    qed
  next
    case a: False
    show ?thesis
    proof (cases "b < 10")
      case True
      with a 1(2) show ?thesis
        using str_nat_not_Nil[of "a div 10"] by (simp add: str_nat.simps[of a] str_nat.simps[of b])
    next
      case False
      with a 1(2) have "str_nat (a div 10) = str_nat (b div 10)"
        and d: "digit_char (a mod 10) = digit_char (b mod 10)"
        by (simp_all add: str_nat.simps[of a] str_nat.simps[of b])
      then have "a div 10 = b div 10" using 1(1)[OF a] by simp
      moreover have "a mod 10 = b mod 10" using d digit_char_inj[of "a mod 10" "b mod 10"] by simp
      ultimately show ?thesis by (metis div_mult_mod_eq)
    qed
  qed
qed

lemma source_id_inj:
  assumes "a @ ''#'' @ str_nat i = b @ ''#'' @ str_nat j"
  shows "i = j"
proof -
  have tw: "takeWhile (\<lambda>c. c \<noteq> CHR ''#'') (rev (x @ ''#'' @ str_nat n)) = rev (str_nat n)" for x n
  proof -
    have "\<forall>c\<in>set (rev (str_nat n)). c \<noteq> CHR ''#''" using str_nat_no_hash[of n] by auto
    then show ?thesis by (simp add: takeWhile_tail takeWhile_eq_all_conv)
  qed
  have "takeWhile (\<lambda>c. c \<noteq> CHR ''#'') (rev (a @ ''#'' @ str_nat i)) =
        takeWhile (\<lambda>c. c \<noteq> CHR ''#'') (rev (b @ ''#'' @ str_nat j))"
    by (simp only: assms)
  then have "rev (str_nat i) = rev (str_nat j)" by (simp only: tw)
  then show ?thesis using str_nat_inj by simp
qed

lemma numbered_distinct:
  assumes "numbered names (texts, sources, n)"
  shows "distinct sources"
proof -
  have "i = j" if "i < length sources" "j < length sources" "sources ! i = sources ! j" for i j
  proof -
    from assms have all: "\<forall>k<length sources. \<exists>name\<in>names. sources ! k = name @ ''#'' @ str_nat k"
      by (simp add: numbered_def)
    from all that(1) obtain a where a: "sources ! i = a @ ''#'' @ str_nat i" by blast
    from all that(2) obtain b where b: "sources ! j = b @ ''#'' @ str_nat j" by blast
    from a b that(3) have "a @ ''#'' @ str_nat i = b @ ''#'' @ str_nat j" by simp
    then show ?thesis by (rule source_id_inj)
  qed
  then show ?thesis unfolding distinct_conv_nth by blast
qed

lemma add_chunks_numbered:
  "numbered names acc \<Longrightarrow> filename \<in> names \<Longrightarrow> numbered names (add_chunks filename chunks acc)"
proof (induction filename chunks acc rule: add_chunks.induct)
  case (1 filename acc)
  then show ?case by simp
next
  case (2 filename chunk rest texts sources chunk_index)
  show ?case
  proof (cases "chunk = []")
    case True
    with 2 show ?thesis by simp
  next
    case False
    have "numbered names (texts @ [chunk], sources @ [filename @ ''#'' @ str_nat chunk_index], chunk_index + 1)"
      using 2(3,4) by (auto simp: numbered_def nth_append less_Suc_eq)
    with 2 False show ?thesis by simp
  qed
qed

lemma add_paragraphs_numbered:
  "add_paragraphs filename paras acc = Some acc' \<Longrightarrow> numbered names acc \<Longrightarrow> filename \<in> names
   \<Longrightarrow> numbered names acc'"
proof (induction paras arbitrary: acc)
  case Nil
  then show ?case by simp
next
  case (Cons para rest)
  from Cons.prems(1) obtain para_chunks where
    "split_into_chunks para 200 40 = Some para_chunks"
    and r: "add_paragraphs filename rest (add_chunks filename para_chunks acc) = Some acc'"
    by (auto split: option.splits)
  have "numbered names (add_chunks filename para_chunks acc)"
    using Cons.prems(2,3) by (rule add_chunks_numbered)
  from Cons.IH[OF r this Cons.prems(3)] show ?case .
qed

lemma load_files_numbered:
  "load_files entries files acc = Some (Inr acc') \<Longrightarrow> numbered names acc \<Longrightarrow> set files \<subseteq> names
   \<Longrightarrow> numbered names acc'"
proof (induction files arbitrary: acc)
  case Nil
  then show ?case by simp
next
  case (Cons filename rest)
  from Cons.prems(1) obtain content acc1 where
    "read_file entries filename = Inr content"
    and p: "add_paragraphs filename (paragraphs content) acc = Some acc1"
    and r: "load_files entries rest acc1 = Some (Inr acc')"
    by (auto split: sum.splits option.splits)
  have "numbered names acc1"
    using add_paragraphs_numbered[OF p Cons.prems(2)] Cons.prems(3) by simp
  from Cons.IH[OF r this] Cons.prems(3) show ?case by simp
qed

subsection \<open>C6: source identifiers\<close>

text \<open>
  C6. After load_corpus returns for a directory, the source identifiers are pairwise
  distinct, there is one per chunk, and the identifier at position \<open>k\<close> of the whole corpus
  is the name of an eligible document, \<open>#\<close>, and the decimal \<open>k\<close>: the index is one counter
  over all documents and is never reset.
\<close>

theorem load_corpus_source_ids:
  assumes "load_corpus (Directory entries) = Some (Inr (texts, sources))"
  shows "distinct sources \<and> length sources = length texts \<and>
         (\<forall>k<length sources. \<exists>name\<in>set (filter is_txt (map fst entries)).
              sources ! k = name @ ''#'' @ str_nat k)"
proof -
  let ?names = "set (filter is_txt (map fst entries))"
  from assms obtain n where
    l: "load_files entries (sort (filter is_txt (map fst entries))) ([], [], 0) = Some (Inr (texts, sources, n))"
    by (auto simp: load_corpus_def Let_def split: if_splits option.splits sum.splits)
  have "numbered ?names ([], [], 0)" by (simp add: numbered_def)
  from load_files_numbered[OF l this] have num: "numbered ?names (texts, sources, n)" by simp
  then show ?thesis using numbered_distinct[OF num] by (simp add: numbered_def)
qed

lemma load_corpus_dir_two:
  "load_corpus dir_two = Some (Inr ([''p q'', ''r'', ''x y''], [''a.txt#0'', ''a.txt#1'', ''b.txt#2'']))"
  by (simp add: dir_two_def NL_def load_corpus_def is_txt_def ends_with_def read_file_def
      paragraphs_def strip_def isspace_def split_into_chunks_def str_nat.simps digit_char_def)

theorem load_corpus_source_ids_witness:
  "load_corpus dir_two = Some (Inr ([''p q'', ''r'', ''x y''], [''a.txt#0'', ''a.txt#1'', ''b.txt#2''])) \<and>
   distinct [''a.txt#0'', ''a.txt#1'', ''b.txt#2''] \<and>
   length [''a.txt#0'', ''a.txt#1'', ''b.txt#2''] = length [''p q'', ''r'', ''x y'']"
  using load_corpus_source_ids[OF load_corpus_dir_two[unfolded dir_two_def]] load_corpus_dir_two
  by simp

lemma split_into_chunks_returns:
  "overlap < max_words \<Longrightarrow> \<exists>r. split_into_chunks txt max_words overlap = Some r"
  using chunk_loop_terminates[of overlap max_words "split_ws txt" 0 "[]"]
  by (auto simp: split_into_chunks_def Let_def)

lemma add_paragraphs_returns: "\<exists>acc'. add_paragraphs filename paras acc = Some acc'"
proof (induction paras arbitrary: acc)
  case Nil
  show ?case by (rule exI[of _ acc]) simp
next
  case (Cons para rest)
  obtain r where "split_into_chunks para 200 40 = Some r"
    using split_into_chunks_returns[of 40 200 para] by auto
  then show ?case using Cons.IH[of "add_chunks filename r acc"] by simp
qed

lemma load_files_readable:
  "\<forall>name\<in>set files. \<exists>content. map_of entries name = Some (Readable content)
   \<Longrightarrow> \<exists>acc'. load_files entries files acc = Some (Inr acc')"
proof (induction files arbitrary: acc)
  case Nil
  show ?case by (rule exI[of _ acc]) simp
next
  case (Cons filename rest)
  then obtain content where c: "read_file entries filename = Inr content"
    by (auto simp: read_file_def)
  obtain acc1 where "add_paragraphs filename (paragraphs content) acc = Some acc1"
    using add_paragraphs_returns by blast
  moreover obtain acc2 where "load_files entries rest acc1 = Some (Inr acc2)"
    using Cons.IH[of acc1] Cons.prems by auto
  ultimately have "load_files entries (filename # rest) acc = Some (Inr acc2)" using c by simp
  then show ?case by (rule exI)
qed

lemma build_propagates:
  "load_corpus p = Some (Inl e) \<Longrightarrow> build api p = Some (Inl e)"
  by (simp add: build_def)

subsection \<open>C7: the errors of index construction\<close>

lemma build_at_literal:
  "\<not> has_magic path \<Longrightarrow> build_at api path state w = build api state"
  by (cases state) (simp_all add: build_at_def load_corpus_at_def embed_corpus_def build_def load_corpus_def)

lemma load_files_unreadable:
  "\<exists>name\<in>set files. \<forall>content. map_of entries name \<noteq> Some (Readable content)
   \<Longrightarrow> load_files entries files acc = Some (Inl ReadError)"
proof (induction files arbitrary: acc)
  case Nil
  then show ?case by simp
next
  case (Cons filename rest)
  show ?case
  proof (cases "\<exists>content. map_of entries filename = Some (Readable content)")
    case False
    then have "read_file entries filename = Inl ReadError"
      by (auto simp: read_file_def split: option.splits corpus_file.splits)
    then show ?thesis by simp
  next
    case True
    then obtain content where c: "read_file entries filename = Inr content"
      by (auto simp: read_file_def)
    obtain acc1 where p: "add_paragraphs filename (paragraphs content) acc = Some acc1"
      using add_paragraphs_returns by blast
    from True Cons.prems have "\<exists>name\<in>set rest. \<forall>content. map_of entries name \<noteq> Some (Readable content)"
      by auto
    from Cons.IH[OF this, of acc1] c p show ?thesis by simp
  qed
qed

text \<open>
  C7, as amended. For every path, a path that is not a directory raises the invalid-path
  error, in load_corpus and so in the construction of the index. For a path without the
  characters \<open>*\<close>, \<open>?\<close> and \<open>[\<close>: a directory without an eligible document raises the
  empty-corpus error; when every eligible document can be read, load_corpus returns the
  chunk and source lists; when an eligible document cannot be read, load_corpus raises.
  And whenever load_corpus returns an empty chunk list, the construction of the index
  raises in embed_texts.
\<close>

theorem load_corpus_errors:
  "load_corpus_at path NotADirectory w = Some (Inl CorpusPathNotADirectory) \<and>
   build_at api path NotADirectory w = Some (Inl CorpusPathNotADirectory) \<and>
   (\<not> has_magic path \<and> filter is_txt (map fst entries) = [] \<longrightarrow>
      load_corpus_at path (Directory entries) w = Some (Inl NoTxtFiles) \<and>
      build_at api path (Directory entries) w = Some (Inl NoTxtFiles)) \<and>
   (\<not> has_magic path \<and> filter is_txt (map fst entries) \<noteq> [] \<and>
    (\<forall>name\<in>set (filter is_txt (map fst entries)).
        \<exists>content. map_of entries name = Some (Readable content)) \<longrightarrow>
      (\<exists>texts sources. load_corpus_at path (Directory entries) w = Some (Inr (texts, sources)))) \<and>
   (\<not> has_magic path \<and>
    (\<exists>name\<in>set (filter is_txt (map fst entries)).
        \<forall>content. map_of entries name \<noteq> Some (Readable content)) \<longrightarrow>
      load_corpus_at path (Directory entries) w = Some (Inl ReadError) \<and>
      build_at api path (Directory entries) w = Some (Inl ReadError)) \<and>
   (load_corpus_at path state w = Some (Inr ([], sources)) \<longrightarrow>
      build_at api path state w = Some (Inl EmptyTextList))"
proof (intro conjI impI)
  show "load_corpus_at path NotADirectory w = Some (Inl CorpusPathNotADirectory)"
    by (simp add: load_corpus_at_def)
  then show "build_at api path NotADirectory w = Some (Inl CorpusPathNotADirectory)"
    by (simp add: build_at_def embed_corpus_def)
next
  assume a: "\<not> has_magic path \<and> filter is_txt (map fst entries) = []"
  then show l: "load_corpus_at path (Directory entries) w = Some (Inl NoTxtFiles)"
    by (simp add: load_corpus_at_def load_corpus_def)
  then show "build_at api path (Directory entries) w = Some (Inl NoTxtFiles)"
    by (simp add: build_at_def embed_corpus_def)
next
  let ?files = "sort (filter is_txt (map fst entries))"
  assume a: "\<not> has_magic path \<and> filter is_txt (map fst entries) \<noteq> [] \<and>
    (\<forall>name\<in>set (filter is_txt (map fst entries)). \<exists>content. map_of entries name = Some (Readable content))"
  then have "\<forall>name\<in>set ?files. \<exists>content. map_of entries name = Some (Readable content)" by simp
  from load_files_readable[OF this, of "([], [], 0)"]
  obtain texts sources n where "load_files entries ?files ([], [], 0) = Some (Inr (texts, sources, n))"
    by (metis prod_cases3)
  moreover have "?files \<noteq> []" using a by (metis length_sort length_0_conv)
  ultimately show "\<exists>texts sources. load_corpus_at path (Directory entries) w = Some (Inr (texts, sources))"
    using a by (simp add: load_corpus_at_def load_corpus_def)
next
  let ?files = "sort (filter is_txt (map fst entries))"
  assume a: "\<not> has_magic path \<and>
    (\<exists>name\<in>set (filter is_txt (map fst entries)). \<forall>content. map_of entries name \<noteq> Some (Readable content))"
  then have "\<exists>name\<in>set ?files. \<forall>content. map_of entries name \<noteq> Some (Readable content)" by simp
  from load_files_unreadable[OF this, of "([], [], 0)"]
  have "load_files entries ?files ([], [], 0) = Some (Inl ReadError)" .
  moreover have "?files \<noteq> []" using a by (metis empty_iff empty_set length_sort length_0_conv)
  ultimately show l: "load_corpus_at path (Directory entries) w = Some (Inl ReadError)"
    using a by (simp add: load_corpus_at_def load_corpus_def)
  then show "build_at api path (Directory entries) w = Some (Inl ReadError)"
    by (simp add: build_at_def embed_corpus_def)
next
  assume "load_corpus_at path state w = Some (Inr ([], sources))"
  then show "build_at api path state w = Some (Inl EmptyTextList)"
    by (simp add: build_at_def embed_corpus_def embed_texts_def)
qed

theorem load_corpus_errors_witness:
  "load_corpus_at ''data'' (Directory [(''notes.md'', Readable ''n'')]) None = Some (Inl NoTxtFiles) \<and>
   build_at (pure_api (\<lambda>t. [1])) ''data'' (Directory [(''notes.md'', Readable ''n'')]) None =
     Some (Inl NoTxtFiles) \<and>
   load_corpus_at ''data'' dir_two None =
     Some (Inr ([''p q'', ''r'', ''x y''], [''a.txt#0'', ''a.txt#1'', ''b.txt#2''])) \<and>
   load_corpus_at ''data'' (Directory [(''a.txt'', Unreadable)]) None = Some (Inl ReadError) \<and>
   load_corpus_at ''data'' (Directory [(''a.txt'', Readable '' '')]) None = Some (Inr ([], [])) \<and>
   build_at (pure_api (\<lambda>t. [1])) ''data'' (Directory [(''a.txt'', Readable '' '')]) None =
     Some (Inl EmptyTextList)"
proof -
  let ?api = "pure_api (\<lambda>t. [1])"
  have m: "\<not> has_magic ''data''" by (simp add: has_magic_def)
  have 1: "filter is_txt (map fst [(''notes.md'', Readable ''n'')]) = []"
    by (simp add: is_txt_def ends_with_def)
  have 2: "filter is_txt (map fst [(''a.txt'', Unreadable)]) = [''a.txt'']"
    by (simp add: is_txt_def ends_with_def)
  have 3: "load_corpus_at ''data'' dir_two None =
     Some (Inr ([''p q'', ''r'', ''x y''], [''a.txt#0'', ''a.txt#1'', ''b.txt#2'']))"
    using m load_corpus_dir_two by (simp add: load_corpus_at_def dir_two_def)
  have 4: "load_corpus_at ''data'' (Directory [(''a.txt'', Readable '' '')]) None = Some (Inr ([], []))"
    using m by (simp add: load_corpus_at_def load_corpus_def is_txt_def ends_with_def read_file_def
      paragraphs_def strip_def isspace_def)
  note t1 = load_corpus_errors[of "''data''" None ?api "[(''notes.md'', Readable ''n'')]"]
  note t2 = load_corpus_errors[of "''data''" None ?api "[(''a.txt'', Unreadable)]"]
  note t3 = load_corpus_errors[of "''data''" None ?api _ "Directory [(''a.txt'', Readable '' '')]" "[]"]
  from t1 m 1 have a: "load_corpus_at ''data'' (Directory [(''notes.md'', Readable ''n'')]) None = Some (Inl NoTxtFiles)"
    "build_at ?api ''data'' (Directory [(''notes.md'', Readable ''n'')]) None = Some (Inl NoTxtFiles)"
    by simp_all
  from t2 m 2 have b: "load_corpus_at ''data'' (Directory [(''a.txt'', Unreadable)]) None = Some (Inl ReadError)"
    by simp
  from t3 4 have c: "build_at ?api ''data'' (Directory [(''a.txt'', Readable '' '')]) None = Some (Inl EmptyTextList)"
    by simp
  from a b c 3 4 show ?thesis by simp
qed

text \<open>
  C7 as stated fails: a directory whose only eligible document is blank is loaded into
  empty lists, and the construction of the index then raises in embed_texts; and an
  eligible document that cannot be read makes load_corpus raise.
\<close>

theorem index_construction_counterexample:
  "filter is_txt (map fst [(''a.txt'', Readable '' '')]) = [''a.txt''] \<and>
   load_corpus (Directory [(''a.txt'', Readable '' '')]) = Some (Inr ([], [])) \<and>
   build (pure_api (\<lambda>t. [1])) (Directory [(''a.txt'', Readable '' '')]) = Some (Inl EmptyTextList) \<and>
   load_corpus (Directory [(''a.txt'', Unreadable)]) = Some (Inl ReadError)"
  by (simp add: build_def load_corpus_def is_txt_def ends_with_def read_file_def
      paragraphs_def strip_def isspace_def embed_texts_def)



subsection \<open>C9: loading is deterministic\<close>



lemma sum_squares_zero_iff: "sum_list (map (\<lambda>x. x * x) v) = 0 \<longleftrightarrow> (\<forall>x\<in>set v. x = (0::real))"
proof (induction v)
  case Nil
  then show ?case by simp
next
  case (Cons a v)
  have "0 \<le> sum_list (map (\<lambda>x. x * x) v)" by (rule sum_list_nonneg) auto
  moreover have "0 \<le> a * a" by simp
  ultimately have "a * a + sum_list (map (\<lambda>x. x * x) v) = 0 \<longleftrightarrow> a * a = 0 \<and> sum_list (map (\<lambda>x. x * x) v) = 0"
    by (simp add: add_nonneg_eq_0_iff)
  with Cons show ?case by simp
qed

lemma norm2_zero_iff: "norm2 v = 0 \<longleftrightarrow> (\<forall>x\<in>set v. x = 0)"
  by (simp add: norm2_def sum_squares_zero_iff)

lemma fmul_NaN_right [simp]: "fmul x NaN = NaN"
  by (cases x) auto

lemma fadd_NaN_right [simp]: "fadd x NaN = NaN"
  by (cases x) auto

lemma foldl_fadd_NaN [simp]: "foldl fadd NaN xs = NaN"
  by (induction xs) auto

lemma dot_NaN_right: "q = NaN # qs \<Longrightarrow> row \<noteq> [] \<Longrightarrow> dot row q = NaN"
  by (cases row) (auto simp: dot_def)

lemma dot_NaN_left: "row = NaN # rs \<Longrightarrow> q \<noteq> [] \<Longrightarrow> dot row q = NaN"
  by (cases q) (auto simp: dot_def)

lemma unit_zero_norm:
  "v \<noteq> [] \<Longrightarrow> norm2 v = 0 \<Longrightarrow> \<exists>vs. map (\<lambda>x. fdiv x (norm2 v)) v = NaN # vs"
  by (cases v) (auto simp: norm2_zero_iff fdiv_def)

lemma cosine_similarity_Inr:
  assumes "doc_vecs \<noteq> []" "\<forall>row\<in>set doc_vecs. length row = length query_vec"
  shows "cosine_similarity query_vec doc_vecs =
     Inr (map (\<lambda>row. dot (map (\<lambda>x. fdiv x (norm2 row)) row) (map (\<lambda>x. fdiv x (norm2 query_vec)) query_vec)) doc_vecs)"
  using assms by (simp add: cosine_similarity_def Let_def comp_def)

subsection \<open>C3: cosine similarity at a zero-norm vector\<close>

text \<open>
  C3, as amended. cosine_similarity does not raise on a zero-norm vector, and it has no
  guard either: on arrays of matching shape it returns one similarity per stored vector,
  and wherever the query vector or the stored vector has norm zero that similarity is NaN,
  the result of \<open>0/0\<close>.
\<close>

theorem cosine_similarity_zero_norm:
  assumes "doc_vecs \<noteq> []" and "query_vec \<noteq> []"
    and "\<forall>row\<in>set doc_vecs. length row = length query_vec"
  shows "\<exists>sims. cosine_similarity query_vec doc_vecs = Inr sims \<and> length sims = length doc_vecs \<and>
           (\<forall>i<length doc_vecs. norm2 query_vec = 0 \<or> norm2 (doc_vecs ! i) = 0 \<longrightarrow> sims ! i = NaN)"
proof -
  let ?q = "map (\<lambda>x. fdiv x (norm2 query_vec)) query_vec"
  let ?d = "\<lambda>row. map (\<lambda>x. fdiv x (norm2 row)) row"
  let ?sims = "map (\<lambda>row. dot (?d row) ?q) doc_vecs"
  have "?sims ! i = NaN" if i: "i < length doc_vecs"
    and z: "norm2 query_vec = 0 \<or> norm2 (doc_vecs ! i) = 0" for i
  proof -
    let ?row = "doc_vecs ! i"
    have "?row \<in> set doc_vecs" using i by simp
    then have "length ?row = length query_vec" using assms(3) by blast
    then have len: "length ?row = length query_vec" "?row \<noteq> []"
      using assms(2) by auto
    have "dot (?d ?row) ?q = NaN"
    proof (cases "norm2 query_vec = 0")
      case True
      from unit_zero_norm[OF assms(2) True] obtain qs where "?q = NaN # qs" ..
      then show ?thesis using len by (intro dot_NaN_right) auto
    next
      case False
      with z have "norm2 ?row = 0" by simp
      from unit_zero_norm[OF len(2) this] obtain rs where "?d ?row = NaN # rs" ..
      then show ?thesis using assms(2) by (intro dot_NaN_left) auto
    qed
    then show ?thesis using i by simp
  qed
  then have nan: "\<forall>i<length doc_vecs. norm2 query_vec = 0 \<or> norm2 (doc_vecs ! i) = 0 \<longrightarrow> ?sims ! i = NaN"
    by blast
  have "length ?sims = length doc_vecs" by simp
  with cosine_similarity_Inr[OF assms(1,3)] nan show ?thesis by blast
qed

theorem cosine_similarity_zero_norm_witness:
  "cosine_similarity [0, 0] [[1, 0], [0, 0]] = Inr [NaN, NaN] \<and>
   cosine_similarity [1, 0] [[0, 0], [1, 0]] = Inr [NaN, Num 1]"
proof -
  have n: "norm2 [0, 0] = 0" by (simp add: norm2_def)
  obtain sims where s: "cosine_similarity [0, 0] [[1, 0], [0, 0]] = Inr sims"
    and l: "length sims = 2" and a: "\<forall>i<2. sims ! i = NaN"
    using cosine_similarity_zero_norm[of "[[1, 0], [0, 0]]" "[0, 0]"] n by auto
  from a have "sims ! 0 = NaN" "sims ! 1 = NaN" by auto
  with l have "sims = [NaN, NaN]"
    by (cases sims; cases "tl sims"; cases "tl (tl sims)") auto
  with s show ?thesis by (simp add: cosine_similarity_def norm2_def dot_def fdiv_def)
qed

text \<open>
  C3 as stated fails: the similarity of a zero vector is NaN and not \<open>-1\<close>, for a zero
  query vector and for a zero stored vector.
\<close>

theorem zero_norm_similarity_counterexample:
  "cosine_similarity [0, 0] [[1, 0]] = Inr [NaN] \<and> NaN \<noteq> Num (- 1) \<and>
   cosine_similarity [1, 0] [[0, 0]] = Inr [NaN]"
  by (simp add: cosine_similarity_def norm2_def dot_def fdiv_def)

lemma load_corpus_wf:
  assumes "load_corpus p = Some (Inr (texts, sources))"
  shows "distinct sources \<and> length sources = length texts"
proof (cases p)
  case NotADirectory
  with assms show ?thesis by (simp add: load_corpus_def)
next
  case (Directory entries)
  let ?names = "set (filter is_txt (map fst entries))"
  from assms Directory obtain n where
    l: "load_files entries (sort (filter is_txt (map fst entries))) ([], [], 0) = Some (Inr (texts, sources, n))"
    by (auto simp: load_corpus_def Let_def split: if_splits option.splits sum.splits)
  have "numbered ?names ([], [], 0)" by (simp add: numbered_def)
  from load_files_numbered[OF l this] have num: "numbered ?names (texts, sources, n)" by simp
  then show ?thesis using numbered_distinct[OF num] by (simp add: numbered_def)
qed

lemma build_wf:
  assumes "build api p = Some (Inr rag)"
  shows "distinct (rag_sources rag) \<and> length (rag_sources rag) = length (rag_texts rag)"
proof -
  from assms obtain texts sources vectors where
    l: "load_corpus p = Some (Inr (texts, sources))"
    and r: "rag = \<lparr>rag_texts = texts, rag_sources = sources, rag_embeddings = vectors\<rparr>"
    by (auto simp: build_def split: option.splits sum.splits)
  from load_corpus_wf[OF l] r show ?thesis by simp
qed

lemma py_slice_prefix: "0 \<le> k \<Longrightarrow> py_slice xs 0 k = take (nat k) xs"
  by (auto simp: py_slice_def Let_def min_def)

lemma make_results_map:
  "\<forall>i\<in>set idxs. i < length (rag_texts rag) \<and> i < length sims \<and> i < length (rag_sources rag)
   \<Longrightarrow> make_results rag sims idxs =
       Inr (map (\<lambda>idx. \<lparr>r_text = rag_texts rag ! idx, r_similarity = sims ! idx,
                         r_source = rag_sources rag ! idx\<rparr>) idxs)"
  by (induction idxs) auto

lemma cosine_similarity_length:
  "cosine_similarity query_vec doc_vecs = Inr sims \<Longrightarrow> length sims = length doc_vecs"
  by (auto simp: cosine_similarity_def Let_def split: if_splits)

lemma is_argsort_mset: "is_argsort keys perm \<Longrightarrow> mset perm = mset [0..<length keys]"
  by (metis is_argsort_def mset_sort)

subsection \<open>C2: the result of retrieve\<close>

text \<open>
  C2, as amended. For an index that build returned with one embedding per chunk, a query
  whose embedding and similarities are computed, an argsort that meets numpy's contract
  on the negated similarities, and \<open>k \<ge> 0\<close>: retrieve returns \<open>min k n\<close> results for a
  corpus of \<open>n\<close> chunks, so at most \<open>k\<close>; their source identifiers are pairwise distinct;
  the similarities are in descending order with NaN last; every result is a chunk of the
  index with its similarity and source; and for \<open>k \<ge> n\<close> every chunk is returned. The
  order among equal similarities is whatever argsort returns.
\<close>

theorem retrieve_top_k:
  assumes "build api corpus_path = Some (Inr rag)"
    and "length (rag_embeddings rag) = length (rag_texts rag)"
    and "embed_texts api [query] 64 = Inr (query_vec # other)"
    and "cosine_similarity query_vec (rag_embeddings rag) = Inr sims"
    and "is_argsort (map fneg sims) (argsort (map fneg sims))"
    and "0 \<le> k"
  shows "\<exists>results. retrieve argsort api rag query k = Inr results \<and>
           length results = min (nat k) (length (rag_texts rag)) \<and>
           distinct (map r_source results) \<and>
           sorted_wrt sim_ge (map r_similarity results) \<and>
           (\<forall>r\<in>set results. \<exists>i<length (rag_texts rag).
               r = \<lparr>r_text = rag_texts rag ! i, r_similarity = sims ! i,
                    r_source = rag_sources rag ! i\<rparr>) \<and>
           (int (length (rag_texts rag)) \<le> k \<longrightarrow>
               mset (map r_source results) = mset (rag_sources rag))"
proof -
  let ?n = "length (rag_texts rag)"
  let ?perm = "argsort (map fneg sims)"
  let ?top = "take (nat k) ?perm"
  let ?mk = "\<lambda>idx. \<lparr>r_text = rag_texts rag ! idx, r_similarity = sims ! idx,
                      r_source = rag_sources rag ! idx\<rparr>"
  from build_wf[OF assms(1)] have ds: "distinct (rag_sources rag)"
    and ls: "length (rag_sources rag) = ?n" by simp_all
  have lsim: "length sims = ?n" using cosine_similarity_length[OF assms(4)] assms(2) by simp
  have pm: "mset ?perm = mset [0..<?n]" using is_argsort_mset[OF assms(5)] lsim by simp
  then have pset: "set ?perm = {0..<?n}" by (metis mset_eq_setD set_upt)
  have pdist: "distinct ?perm" using pm by (metis distinct_upt mset_eq_imp_distinct_iff)
  have plen: "length ?perm = ?n" using pm by (metis mset_eq_length length_upt diff_zero)
  have inb: "\<forall>i\<in>set ?top. i < ?n" using pset by (auto dest: in_set_takeD)
  have res: "retrieve argsort api rag query k = Inr (map ?mk ?top)"
    using assms(3,4,6) inb lsim ls
    by (simp add: retrieve_def Let_def py_slice_prefix make_results_map)
  have len: "length (map ?mk ?top) = min (nat k) ?n" using plen by simp
  have "inj_on (\<lambda>i. rag_sources rag ! i) (set ?top)"
    using inb ds ls by (auto simp: inj_on_def nth_eq_iff_index_eq)
  moreover have "distinct ?top" using pdist by simp
  ultimately have dist: "distinct (map r_source (map ?mk ?top))"
    by (simp add: distinct_map comp_def)
  have "sorted_wrt np_le (map (\<lambda>i. map fneg sims ! i) ?perm)"
    using assms(5) by (simp add: is_argsort_def)
  then have "sorted_wrt (\<lambda>i j. np_le (map fneg sims ! i) (map fneg sims ! j)) ?perm"
    by (simp add: sorted_wrt_map)
  then have "sorted_wrt (\<lambda>i j. np_le (map fneg sims ! i) (map fneg sims ! j)) ?top"
    by (rule sorted_wrt_take)
  then have "sorted_wrt (\<lambda>i j. sim_ge (sims ! i) (sims ! j)) ?top"
    by (rule sorted_wrt_mono_rel[rotated]) (use inb lsim in \<open>auto simp: sim_ge_def\<close>)
  then have srt: "sorted_wrt sim_ge (map r_similarity (map ?mk ?top))"
    by (simp add: sorted_wrt_map comp_def)
  have mem: "\<forall>r\<in>set (map ?mk ?top). \<exists>i<?n. r = ?mk i" using inb by auto
  have all: "mset (map r_source (map ?mk ?top)) = mset (rag_sources rag)" if "int ?n \<le> k"
  proof -
    from that plen have "?top = ?perm" by simp
    then have "mset (map r_source (map ?mk ?top)) = image_mset (\<lambda>i. rag_sources rag ! i) (mset ?perm)"
      by (simp add: comp_def)
    also have "\<dots> = mset (map (\<lambda>i. rag_sources rag ! i) [0..<?n])"
      by (simp only: pm mset_map)
    also have "map (\<lambda>i. rag_sources rag ! i) [0..<?n] = rag_sources rag"
      using ls map_nth[of "rag_sources rag"] by simp
    finally show ?thesis .
  qed
  show ?thesis
    using res len dist srt mem all by blast
qed

lemma embed_texts_pure64: "texts \<noteq> [] \<Longrightarrow> embed_texts (pure_api f) texts 64 = Inr (map f texts)"
  by (rule embed_texts_pure) simp_all

lemma build_dir_two: "build api_w dir_two = Some (Inr rag_w)"
  by (simp add: build_def load_corpus_dir_two api_w_def embed_texts_pure64 rag_w_def)

lemma sims_w: "cosine_similarity [1, 0] [[1, 0], [0, 1], [3, 4]] = Inr [Num 1, Num 0, Num (3 / 5)]"
  by (simp add: cosine_similarity_def norm2_def dot_def fdiv_def)

lemma argsort_w: "np_argsort8 [Num (- 1), Num 0, Num (- (3 / 5))] = [0, 2, 1]"
  by code_simp

lemma retrieve_w:
  "retrieve np_argsort8 api_w rag_w ''q'' 2 =
     Inr [\<lparr>r_text = ''p q'', r_similarity = Num 1, r_source = ''a.txt#0''\<rparr>,
          \<lparr>r_text = ''x y'', r_similarity = Num (3 / 5), r_source = ''b.txt#2''\<rparr>]"
  by (simp add: retrieve_def api_w_def embed_texts_pure64 rag_w_def sims_w argsort_w py_slice_def)

theorem retrieve_top_k_witness:
  "build api_w dir_two = Some (Inr rag_w) \<and>
   retrieve np_argsort8 api_w rag_w ''q'' 2 =
     Inr [\<lparr>r_text = ''p q'', r_similarity = Num 1, r_source = ''a.txt#0''\<rparr>,
          \<lparr>r_text = ''x y'', r_similarity = Num (3 / 5), r_source = ''b.txt#2''\<rparr>] \<and>
   (\<exists>results. retrieve np_argsort8 api_w rag_w ''q'' 2 = Inr results \<and>
      length results = 2 \<and> distinct (map r_source results) \<and>
      sorted_wrt sim_ge (map r_similarity results))"
proof -
  have e: "embed_texts api_w [''q''] 64 = Inr ([1, 0] # [])"
    by (simp add: api_w_def embed_texts_pure64)
  have c: "cosine_similarity [1, 0] (rag_embeddings rag_w) = Inr [Num 1, Num 0, Num (3 / 5)]"
    by (simp add: rag_w_def sims_w)
  have a: "is_argsort (map fneg [Num 1, Num 0, Num (3 / 5)])
             (np_argsort8 (map fneg [Num 1, Num 0, Num (3 / 5)]))"
    by (simp add: argsort_w is_argsort_def)
  have l: "length (rag_embeddings rag_w) = length (rag_texts rag_w)" by (simp add: rag_w_def)
  have k: "(0::int) \<le> 2" by simp
  from retrieve_top_k[where argsort = np_argsort8 and k = 2, OF build_dir_two l e c a k]
  obtain results where "retrieve np_argsort8 api_w rag_w ''q'' 2 = Inr results"
    and "length results = min (nat 2) (length (rag_texts rag_w))"
    and "distinct (map r_source results)" and "sorted_wrt sim_ge (map r_similarity results)"
    by auto
  then show ?thesis using build_dir_two retrieve_w by (auto simp: rag_w_def)
qed

text \<open>
  C2 as stated fails: chunks 0 and 2 have the same similarity \<open>3/5\<close>, and the result lists
  chunk 2 before chunk 0. The keys are the negated similarities of the five chunks, and
  the permutation is the one \<open>np_argsort8\<close> computes for them; it meets numpy's contract.
\<close>

theorem retrieve_tie_order_counterexample:
  "build api_five dir_five = Some (Inr rag_five) \<and>
   np_argsort8 [Num (- (3 / 5)), Num (- 1), Num (- (3 / 5)), Num 0, Num (- (4 / 5))] = [1, 4, 2, 0, 3] \<and>
   is_argsort [Num (- (3 / 5)), Num (- 1), Num (- (3 / 5)), Num 0, Num (- (4 / 5))] [1, 4, 2, 0, 3] \<and>
   retrieve np_argsort8 api_five rag_five ''q'' 5 =
     Inr [\<lparr>r_text = ''b'', r_similarity = Num 1, r_source = ''a.txt#1''\<rparr>,
          \<lparr>r_text = ''e'', r_similarity = Num (4 / 5), r_source = ''a.txt#4''\<rparr>,
          \<lparr>r_text = ''c'', r_similarity = Num (3 / 5), r_source = ''a.txt#2''\<rparr>,
          \<lparr>r_text = ''a'', r_similarity = Num (3 / 5), r_source = ''a.txt#0''\<rparr>,
          \<lparr>r_text = ''d'', r_similarity = Num 0, r_source = ''a.txt#3''\<rparr>]"
proof -
  have l: "load_corpus dir_five = Some (Inr ([''a'', ''b'', ''c'', ''d'', ''e''],
      [''a.txt#0'', ''a.txt#1'', ''a.txt#2'', ''a.txt#3'', ''a.txt#4'']))"
    by (simp add: dir_five_def NL_def load_corpus_def is_txt_def ends_with_def read_file_def
      paragraphs_def strip_def isspace_def split_into_chunks_def str_nat.simps digit_char_def)
  have b: "build api_five dir_five = Some (Inr rag_five)"
    by (simp add: build_def l api_five_def embed_texts_pure64 rag_five_def)
  have a: "np_argsort8 [Num (- (3 / 5)), Num (- 1), Num (- (3 / 5)), Num 0, Num (- (4 / 5))] = [1, 4, 2, 0, 3]"
    by code_simp
  have i: "is_argsort [Num (- (3 / 5)), Num (- 1), Num (- (3 / 5)), Num 0, Num (- (4 / 5))] [1, 4, 2, 0, 3]"
    by (simp add: is_argsort_def)
  have s: "cosine_similarity [1, 0] [[3, 4], [1, 0], [3, 4], [0, 1], [4, 3]] =
      Inr [Num (3 / 5), Num 1, Num (3 / 5), Num 0, Num (4 / 5)]"
    by (simp add: cosine_similarity_def norm2_def dot_def fdiv_def)
  have r: "retrieve np_argsort8 api_five rag_five ''q'' 5 =
     Inr [\<lparr>r_text = ''b'', r_similarity = Num 1, r_source = ''a.txt#1''\<rparr>,
          \<lparr>r_text = ''e'', r_similarity = Num (4 / 5), r_source = ''a.txt#4''\<rparr>,
          \<lparr>r_text = ''c'', r_similarity = Num (3 / 5), r_source = ''a.txt#2''\<rparr>,
          \<lparr>r_text = ''a'', r_similarity = Num (3 / 5), r_source = ''a.txt#0''\<rparr>,
          \<lparr>r_text = ''d'', r_similarity = Num 0, r_source = ''a.txt#3''\<rparr>]"
    by (simp add: retrieve_def api_five_def embed_texts_pure64 rag_five_def s a py_slice_def)
  from b a i r show ?thesis by simp
qed

lemma call_Inr:
  "call chat req trace = Inr (reply, trace') \<longleftrightarrow> chat req = Inr reply \<and> trace' = trace @ [req]"
  by (auto simp: call_def split: sum.splits)

lemma upper_append: "upper (a @ b) = upper a @ upper b"
  by (simp add: upper_def)

lemma starts_with_append: "starts_with (m @ post) m"
  by (induction m) auto

lemma starts_with_contains: "starts_with s sub \<Longrightarrow> contains s sub"
  by (cases s; cases sub) auto

lemma contains_prepend: "contains s sub \<Longrightarrow> contains (pre @ s) sub"
  by (induction pre) auto

lemma marker_any_case:
  "upper mid = ''VERDICT: REVISE'' \<Longrightarrow> contains (upper (pre @ mid @ post)) ''VERDICT: REVISE''"
  by (metis upper_append contains_prepend starts_with_contains starts_with_append)

subsection \<open>C1: the revision gate of run_pipeline\<close>

text \<open>
  C1. In a run of run_pipeline that returns, the final answer is the draft answer and the
  Revision stage is not called, if and only if the critic's reply, put in upper case, does
  not contain \<open>VERDICT: REVISE\<close>; when it does, the Revision stage is called exactly once
  and the final answer is its reply. This holds for every query, every retriever and
  every behaviour of the chat endpoint; \<open>marker_any_case\<close> shows that the marker is
  found in any letter case.
\<close>

theorem run_pipeline_revision_gate:
  assumes "run_pipeline retrieve_fn chat query k [] = Inr (run, trace)"
  shows "((pr_final_answer run = pr_draft_answer run \<and> revision_calls trace = 0) \<longleftrightarrow>
            \<not> contains (upper (pr_critic_feedback run)) ''VERDICT: REVISE'') \<and>
         (contains (upper (pr_critic_feedback run)) ''VERDICT: REVISE'' \<longrightarrow>
            revision_calls trace = 1 \<and>
            chat (revision_request query (pr_retrieved_docs run) (pr_draft_answer run)
                    (pr_critic_feedback run)) = Inr (pr_final_answer run)) \<and>
         chat (critic_request query (pr_retrieved_docs run) (pr_draft_answer run)) =
            Inr (pr_critic_feedback run)"
proof -
  from assms obtain retrieved where r: "retrieve_fn query k = Inr retrieved"
    by (auto simp: run_pipeline_def split: sum.splits)
  let ?docs = "map r_text retrieved"
  from assms r obtain plan where p: "chat (plan_request query ?docs) = Inr plan"
    by (auto simp: run_pipeline_def Let_def generate_plan_def call_def split: sum.splits)
  let ?t1 = "[plan_request query ?docs]"
  from assms r p obtain draft where d: "chat (draft_request query ?docs plan) = Inr draft"
    by (auto simp: run_pipeline_def Let_def generate_plan_def generate_draft_answer_def call_def
        split: sum.splits)
  let ?t2 = "?t1 @ [draft_request query ?docs plan]"
  from assms r p d obtain critic where c: "chat (critic_request query ?docs draft) = Inr critic"
    by (auto simp: run_pipeline_def Let_def generate_plan_def generate_draft_answer_def
        evaluate_answer_def call_def split: sum.splits)
  let ?t3 = "?t2 @ [critic_request query ?docs draft]"
  have sys: "req_system (plan_request query ?docs) = PLANNER_SYSTEM_PROMPT"
    "req_system (draft_request query ?docs plan) = DRAFT_SYSTEM_PROMPT"
    "req_system (critic_request query ?docs draft) = CRITIC_SYSTEM_PROMPT"
    "req_system (revision_request query ?docs draft critic) = REVISION_SYSTEM_PROMPT"
    by (simp_all add: plan_request_def draft_request_def critic_request_def revision_request_def)
  show ?thesis
  proof (cases "contains (upper critic) ''VERDICT: REVISE''")
    case True
    with assms r p d c obtain final where
      f: "chat (revision_request query ?docs draft critic) = Inr final"
      and run: "run = \<lparr>pr_query = query, pr_retrieved_docs = ?docs,
                pr_sources = map r_source retrieved, pr_plan = plan,
                pr_draft_answer = draft, pr_critic_feedback = critic,
                pr_final_answer = final\<rparr>"
      and tr: "trace = ?t3 @ [revision_request query ?docs draft critic]"
      by (auto simp: run_pipeline_def Let_def generate_plan_def generate_draft_answer_def
          evaluate_answer_def revise_answer_def call_def split: sum.splits)
    have "revision_calls trace = 1" by (simp add: tr revision_calls_def sys)
    with True f c run show ?thesis by simp
  next
    case False
    with assms r p d c have
      run: "run = \<lparr>pr_query = query, pr_retrieved_docs = ?docs,
                pr_sources = map r_source retrieved, pr_plan = plan,
                pr_draft_answer = draft, pr_critic_feedback = critic,
                pr_final_answer = draft\<rparr>"
      and tr: "trace = ?t3"
      by (auto simp: run_pipeline_def Let_def generate_plan_def generate_draft_answer_def
          evaluate_answer_def revise_answer_def call_def split: sum.splits)
    have "revision_calls trace = 0" by (simp add: tr revision_calls_def sys)
    with False c run show ?thesis by simp
  qed
qed

lemma run_pipeline_eval:
  "run_pipeline retrieve_one (chat_with_critic critic) ''q'' 3 [] =
     (if contains (upper critic) ''VERDICT: REVISE''
      then Inr (\<lparr>pr_query = ''q'', pr_retrieved_docs = [''doc''], pr_sources = [''a.txt#0''],
                 pr_plan = ''plan'', pr_draft_answer = ''draft'', pr_critic_feedback = critic,
                 pr_final_answer = ''final''\<rparr>,
                [plan_request ''q'' [''doc''], draft_request ''q'' [''doc''] ''plan'',
                 critic_request ''q'' [''doc''] ''draft'',
                 revision_request ''q'' [''doc''] ''draft'' critic])
      else Inr (\<lparr>pr_query = ''q'', pr_retrieved_docs = [''doc''], pr_sources = [''a.txt#0''],
                 pr_plan = ''plan'', pr_draft_answer = ''draft'', pr_critic_feedback = critic,
                 pr_final_answer = ''draft''\<rparr>,
                [plan_request ''q'' [''doc''], draft_request ''q'' [''doc''] ''plan'',
                 critic_request ''q'' [''doc''] ''draft'']))"
  by (simp add: run_pipeline_def retrieve_one_def Let_def generate_plan_def
      generate_draft_answer_def evaluate_answer_def revise_answer_def call_def chat_with_critic_def
      plan_request_def draft_request_def critic_request_def revision_request_def)

theorem run_pipeline_revision_gate_witness:
  "(\<exists>run trace. run_pipeline retrieve_one (chat_with_critic ''- Verdict: revise'') ''q'' 3 [] = Inr (run, trace) \<and>
      pr_draft_answer run = ''draft'' \<and> pr_final_answer run = ''final'' \<and> revision_calls trace = 1) \<and>
   (\<exists>run trace. run_pipeline retrieve_one (chat_with_critic ''looks fine'') ''q'' 3 [] = Inr (run, trace) \<and>
      pr_final_answer run = pr_draft_answer run \<and> revision_calls trace = 0)"
proof -
  have u1: "contains (upper ''- Verdict: revise'') ''VERDICT: REVISE''" by code_simp
  have u2: "\<not> contains (upper ''looks fine'') ''VERDICT: REVISE''" by code_simp
  obtain run1 trace1 where
    e1: "run_pipeline retrieve_one (chat_with_critic ''- Verdict: revise'') ''q'' 3 [] = Inr (run1, trace1)"
    and f1: "pr_critic_feedback run1 = ''- Verdict: revise''" "pr_draft_answer run1 = ''draft''"
      "pr_final_answer run1 = ''final''"
    using u1 by (simp add: run_pipeline_eval)
  obtain run2 trace2 where
    e2: "run_pipeline retrieve_one (chat_with_critic ''looks fine'') ''q'' 3 [] = Inr (run2, trace2)"
    and f2: "pr_critic_feedback run2 = ''looks fine''"
    using u2 by (simp add: run_pipeline_eval)
  from run_pipeline_revision_gate[OF e1] f1 u1 have "revision_calls trace1 = 1" by simp
  moreover from run_pipeline_revision_gate[OF e2] f2 u2
  have "pr_final_answer run2 = pr_draft_answer run2 \<and> revision_calls trace2 = 0" by simp
  ultimately show ?thesis using e1 e2 f1 by blast
qed


lemma parse_critic_json_total: "\<exists>v. parse_critic_json loads txt = Inr v"
  by (auto simp: parse_critic_json_def Let_def split: sum.splits)

lemma parse_critic_json_whole:
  "txt \<noteq> [] \<Longrightarrow> loads txt = Inr v \<Longrightarrow> parse_critic_json loads txt = Inr v"
  by (simp add: parse_critic_json_def)

lemma find_char_append:
  "c \<notin> set pre \<Longrightarrow> find_char (pre @ c # rest) c = int (length pre)"
  by (induction pre) (auto simp: Let_def)

lemma rfind_char_append:
  "c \<notin> set post \<Longrightarrow> rfind_char (pre @ c # post) c = int (length pre)"
  using find_char_append[of c "rev post" "rev pre"] by (simp add: rfind_char_def Let_def)

lemma py_slice_middle:
  "py_slice (pre @ mid @ post) (int (length pre)) (int (length pre) + int (length mid)) = mid"
  by (simp add: py_slice_def Let_def)

lemma parse_critic_json_embedded:
  assumes "loads (pre @ ''{'' @ mid @ ''}'' @ post) = Inl e"
    and "CHR ''{'' \<notin> set pre" and "CHR ''}'' \<notin> set post"
    and "loads (''{'' @ mid @ ''}'') = Inr v"
  shows "parse_critic_json loads (pre @ ''{'' @ mid @ ''}'' @ post) = Inr v"
proof -
  let ?txt = "pre @ ''{'' @ mid @ ''}'' @ post"
  have s: "find_char ?txt CHR ''{'' = int (length pre)"
    using find_char_append[OF assms(2), of "mid @ ''}'' @ post"] by simp
  have e: "rfind_char ?txt CHR ''}'' = int (length pre) + 1 + int (length mid)"
    using rfind_char_append[OF assms(3), of "pre @ ''{'' @ mid"] by simp
  have "py_slice (pre @ (''{'' @ mid @ ''}'') @ post) (int (length pre))
          (int (length pre) + int (length (''{'' @ mid @ ''}''))) = ''{'' @ mid @ ''}''"
    by (rule py_slice_middle)
  then have sl: "py_slice ?txt (int (length pre)) (int (length pre) + 1 + int (length mid) + 1)
      = ''{'' @ mid @ ''}''"
    by (simp add: add.assoc)
  show ?thesis using assms(1,4) s e sl by (simp add: parse_critic_json_def Let_def)
qed

lemma parse_critic_json_degrades:
  "parse_critic_json loads txt = Inr v \<Longrightarrow> v = JObject [] \<or> (\<exists>s. loads s = Inr v)"
  by (auto simp: parse_critic_json_def Let_def split: sum.splits if_splits)

lemma critic_meta_object: "\<exists>meta. critic_meta (JObject kvs) = Inr meta"
  by (simp add: critic_meta_def json_get_def)

lemma critic_meta_not_object:
  "(\<forall>kvs. v \<noteq> JObject kvs) \<Longrightarrow> critic_meta v = Inl AttributeError"
  by (cases v) (auto simp: critic_meta_def json_get_def)

lemma run_query_completes:
  assumes "ext_retrieve ext query = Inr docs" and "\<forall>req. \<exists>reply. ext_chat ext req = Inr reply"
    and "\<forall>txt v. parse_critic_json (ext_loads ext) txt = Inr v \<longrightarrow> \<not> truthy v \<or> (\<exists>kvs. v = JObject kvs)"
  shows "\<exists>resp trace. run_query_responsible ext query [] = Inr (resp, trace) \<and>
           resp_answer resp = resp_safe_answer resp \<and> rewrite_calls trace = 1"
proof -
  let ?texts = "map (get_doc_text (ext_str ext)) docs"
  from assms(2) obtain plan where p: "ext_chat ext (plan_request query ?texts) = Inr plan" by blast
  from assms(2) obtain draft where d: "ext_chat ext (app_draft_request query ?texts plan) = Inr draft"
    by blast
  from assms(2) obtain critic where c: "ext_chat ext (critic_request query ?texts draft) = Inr critic"
    by blast
  obtain parsed where pa: "parse_critic_json (ext_loads ext) critic = Inr parsed"
    using parse_critic_json_total by blast
  let ?str = "if truthy parsed then ext_dumps ext parsed else critic"
  from assms(2) obtain safe where s: "ext_chat ext (app_rewrite_request query ?texts draft ?str) = Inr safe"
    by blast
  have "\<exists>meta. (if truthy parsed then critic_meta parsed else Inr []) = Inr meta"
  proof (cases "truthy parsed")
    case True
    with assms(3) pa obtain kvs where "parsed = JObject kvs" by blast
    with True show ?thesis using critic_meta_object[of kvs] by simp
  next
    case False
    then show ?thesis by simp
  qed
  then obtain meta where m: "(if truthy parsed then critic_meta parsed else Inr []) = Inr meta" ..
  have sys: "req_system (plan_request query ?texts) = PLANNER_SYSTEM_PROMPT"
    "req_system (app_draft_request query ?texts plan) = APP_DRAFT_PROMPT"
    "req_system (critic_request query ?texts draft) = CRITIC_SYSTEM_PROMPT"
    "req_system (app_rewrite_request query ?texts draft ?str) = APP_REWRITE_PROMPT"
    by (simp_all add: plan_request_def app_draft_request_def critic_request_def app_rewrite_request_def)
  have "run_query_responsible ext query [] =
      Inr (\<lparr>resp_retrieved = docs, resp_plan = plan,
             resp_critic = (if truthy parsed then Inr parsed else Inl critic),
             resp_critic_raw = critic, resp_safe_answer = safe,
             resp_answer = safe, resp_meta = meta\<rparr>,
           [plan_request query ?texts, app_draft_request query ?texts plan,
            critic_request query ?texts draft, app_rewrite_request query ?texts draft ?str])"
    using assms(1) p d c pa s m
    by (simp add: run_query_responsible_def Let_def generate_plan_def evaluate_answer_def call_def)
  then show ?thesis by (simp add: rewrite_calls_def sys)
qed

subsection \<open>C4: the critic parser and the run that follows it\<close>

text \<open>
  C4. parse_critic_json never raises (\<open>parse_critic_json_total\<close>), returns the parsed
  whole text first (\<open>parse_critic_json_whole\<close>), then the object between the first
  \<open>{\<close> and the last \<open>}\<close> (\<open>parse_critic_json_embedded\<close>), and otherwise the empty
  object (\<open>parse_critic_json_degrades\<close>); the run completes when the parsed value is
  falsy or an object (\<open>run_query_completes\<close>). But the whole text can parse to a value
  that is not an object, and then the run ends in an exception: for the critic reply
  \<open>0.8\<close> the parser returns the number and \<open>.get\<close> on it raises, while for the reply
  \<open>not json\<close> the run completes.
\<close>

theorem run_query_non_object_critic:
  "parse_critic_json loads_number ''0.8'' = Inr (JNumber (4 / 5)) \<and>
   run_query_responsible (ext_with_critic ''0.8'') ''q'' [] = Inl AttributeError \<and>
   parse_critic_json loads_number ''not json'' = Inr (JObject []) \<and>
   (\<exists>resp trace. run_query_responsible (ext_with_critic ''not json'') ''q'' [] = Inr (resp, trace) \<and>
      resp_answer resp = ''safe'')"
proof -
  have p1: "parse_critic_json loads_number ''0.8'' = Inr (JNumber (4 / 5))"
    by (simp add: parse_critic_json_def loads_number_def)
  have p2: "parse_critic_json loads_number ''not json'' = Inr (JObject [])"
    by (simp add: parse_critic_json_def loads_number_def)
  have m: "critic_meta (JNumber (4 / 5)) = Inl AttributeError"
    by (simp add: critic_meta_def json_get_def)
  have r1: "run_query_responsible (ext_with_critic ''0.8'') ''q'' [] = Inl AttributeError"
    by (simp add: run_query_responsible_def ext_with_critic_def retrieve_one_def Let_def
        generate_plan_def evaluate_answer_def call_def chat_with_critic_def get_doc_text_def
        plan_request_def app_draft_request_def critic_request_def app_rewrite_request_def p1 m)
  have r2: "\<exists>resp trace. run_query_responsible (ext_with_critic ''not json'') ''q'' [] = Inr (resp, trace) \<and>
      resp_answer resp = ''safe''"
    by (simp add: run_query_responsible_def ext_with_critic_def retrieve_one_def Let_def
        generate_plan_def evaluate_answer_def call_def chat_with_critic_def get_doc_text_def
        plan_request_def app_draft_request_def critic_request_def app_rewrite_request_def p2)
  from p1 r1 p2 r2 show ?thesis by blast
qed

lemma add_chunks_texts:
  "set (fst (add_chunks filename chunks acc)) \<subseteq> set (fst acc) \<union> set chunks"
  by (induction filename chunks acc rule: add_chunks.induct) (auto split: if_splits)

lemma add_paragraphs_bound:
  "add_paragraphs filename paras acc = Some acc' \<Longrightarrow>
   \<forall>t\<in>set (fst acc). int (length (split_ws t)) \<le> 200 \<Longrightarrow>
   \<forall>t\<in>set (fst acc'). int (length (split_ws t)) \<le> 200"
proof (induction paras arbitrary: acc)
  case Nil
  then show ?case by simp
next
  case (Cons para rest)
  from Cons.prems(1) obtain para_chunks where
    c: "split_into_chunks para 200 40 = Some para_chunks"
    and r: "add_paragraphs filename rest (add_chunks filename para_chunks acc) = Some acc'"
    by (auto split: option.splits)
  have "\<forall>c\<in>set para_chunks. int (length (split_ws c)) \<le> 200"
    using split_into_chunks_bounded[of 40 200 para] c by auto
  then have "\<forall>t\<in>set (fst (add_chunks filename para_chunks acc)). int (length (split_ws t)) \<le> 200"
    using Cons.prems(2) add_chunks_texts[of filename para_chunks acc] by blast
  from Cons.IH[OF r this] show ?case .
qed

lemma load_files_bound:
  "load_files entries files acc = Some (Inr acc') \<Longrightarrow>
   \<forall>t\<in>set (fst acc). int (length (split_ws t)) \<le> 200 \<Longrightarrow>
   \<forall>t\<in>set (fst acc'). int (length (split_ws t)) \<le> 200"
proof (induction files arbitrary: acc)
  case Nil
  then show ?case by simp
next
  case (Cons filename rest)
  from Cons.prems(1) obtain content acc1 where
    p: "add_paragraphs filename (paragraphs content) acc = Some acc1"
    and r: "load_files entries rest acc1 = Some (Inr acc')"
    by (auto split: sum.splits option.splits)
  from Cons.IH[OF r add_paragraphs_bound[OF p Cons.prems(2)]] show ?case .
qed

lemma load_corpus_bound:
  assumes "load_corpus path = Some (Inr (texts, sources))"
  shows "\<forall>t\<in>set texts. int (length (split_ws t)) \<le> 200"
proof (cases path)
  case NotADirectory
  with assms show ?thesis by (simp add: load_corpus_def)
next
  case (Directory entries)
  with assms obtain n where
    "load_files entries (sort (filter is_txt (map fst entries))) ([], [], 0) = Some (Inr (texts, sources, n))"
    by (auto simp: load_corpus_def Let_def split: if_splits option.splits sum.splits)
  from load_files_bound[OF this] show ?thesis by simp
qed

lemma split_into_chunks_overlap_ge:
  assumes "max_words \<le> overlap" and "split_into_chunks txt max_words overlap = Some chunks"
  shows "\<forall>c\<in>set chunks. int (length (split_ws c)) \<le> max_words"
proof (cases "split_ws txt = []")
  case True
  with assms(2) show ?thesis by (simp add: split_into_chunks_def)
next
  case False
  show ?thesis
  proof (cases "int (length (split_ws txt)) \<le> max_words")
    case True
    with False assms(2) show ?thesis by (auto simp: split_into_chunks_def split_ws_strip)
  next
    case long: False
    from False have "0 < int (length (split_ws txt))" by simp
    from chunk_loop_diverges[OF assms(1) this]
    have "chunk_loop (split_ws txt) max_words overlap 0 [] = None" .
    with False long assms(2) show ?thesis by (simp add: split_into_chunks_def)
  qed
qed

subsection \<open>C5: chunks are bounded by the maximum word count\<close>

text \<open>
  C5. With overlap 40 and any maximum word count, every chunk that split_into_chunks
  returns has at most \<open>max_words\<close> words, and for a maximum above 40 it does return. A
  paragraph (a text that is not blank) of at most \<open>max_words\<close> words is returned as the
  single chunk \<open>text.strip()\<close>, whatever the overlap. For every corpus, every chunk that
  load_corpus returns has at most 200 words.
\<close>

theorem chunks_within_max_words:
  "(split_into_chunks txt max_words 40 = Some chunks \<longrightarrow>
      (\<forall>c\<in>set chunks. int (length (split_ws c)) \<le> max_words)) \<and>
   (40 < max_words \<longrightarrow> (\<exists>r. split_into_chunks txt max_words 40 = Some r)) \<and>
   (strip txt \<noteq> [] \<and> int (length (split_ws txt)) \<le> max_words \<longrightarrow>
      split_into_chunks txt max_words overlap = Some [strip txt]) \<and>
   (load_corpus path = Some (Inr (texts, sources)) \<longrightarrow>
      (\<forall>t\<in>set texts. int (length (split_ws t)) \<le> 200))"
proof (intro conjI impI)
  assume sc: "split_into_chunks txt max_words 40 = Some chunks"
  show "\<forall>c\<in>set chunks. int (length (split_ws c)) \<le> max_words"
  proof (cases "40 < max_words")
    case True
    with sc show ?thesis using split_into_chunks_bounded[of 40 max_words "txt"] by auto
  next
    case False
    with sc show ?thesis using split_into_chunks_overlap_ge[of max_words 40 "txt" chunks] by simp
  qed
next
  assume "40 < max_words"
  then show "\<exists>r. split_into_chunks txt max_words 40 = Some r"
    by (rule split_into_chunks_returns)
next
  assume "strip txt \<noteq> [] \<and> int (length (split_ws txt)) \<le> max_words"
  then show "split_into_chunks txt max_words overlap = Some [strip txt]"
    using split_ws_nonempty[of "txt"] by (simp add: split_into_chunks_def)
next
  assume "load_corpus path = Some (Inr (texts, sources))"
  then show "\<forall>t\<in>set texts. int (length (split_ws t)) \<le> 200" by (rule load_corpus_bound)
qed

theorem chunks_within_max_words_witness:
  "split_into_chunks '' a b '' 41 40 = Some [''a b''] \<and>
   list_all (\<lambda>c. int (length (split_ws c)) \<le> 41) [''a b''] \<and>
   load_corpus dir_two = Some (Inr ([''p q'', ''r'', ''x y''], [''a.txt#0'', ''a.txt#1'', ''b.txt#2''])) \<and>
   list_all (\<lambda>t. int (length (split_ws t)) \<le> 200) [''p q'', ''r'', ''x y'']"
proof -
  have e: "strip '' a b '' = ''a b''" "split_ws '' a b '' = [''a'', ''b'']"
    by (simp_all add: strip_def isspace_def)
  note t = chunks_within_max_words[of "'' a b ''" 41 "[''a b'']" 40 dir_two
      "[''p q'', ''r'', ''x y'']" "[''a.txt#0'', ''a.txt#1'', ''b.txt#2'']"]
  from t e have s: "split_into_chunks '' a b '' 41 40 = Some [''a b'']" by simp
  with t have "\<forall>c\<in>set [''a b'']. int (length (split_ws c)) \<le> 41" by blast
  then have 1: "list_all (\<lambda>c. int (length (split_ws c)) \<le> 41) [''a b'']"
    unfolding list_all_iff .
  from t load_corpus_dir_two
  have "\<forall>t\<in>set [''p q'', ''r'', ''x y'']. int (length (split_ws t)) \<le> 200" by blast
  then have 2: "list_all (\<lambda>t. int (length (split_ws t)) \<le> 200) [''p q'', ''r'', ''x y'']"
    unfolding list_all_iff .
  from s 1 2 load_corpus_dir_two show ?thesis by simp
qed

end
